theory Spec2Isabelle
  imports Main "HOL-Library.AList" "HOL-Library.Sublist" "HOL-Library.Code_Target_Nat"
begin

section \<open>JavaScript values\<close>

text \<open>
  The argument values that \<^verbatim>\<open>validate\<close> walks are plain JavaScript data. An object is the
  list of its own enumerable properties in the order of \<^verbatim>\<open>Object.keys\<close> (keys distinct), an
  array is the list of its elements (no holes). Numbers are the integers: all that
  \<^verbatim>\<open>validate\<close> asks of a number is whether it is zero.
\<close>

datatype jsval =
    JUndefined
  | JNull
  | JBool bool
  | JNum int
  | JStr string
  | JArr "jsval list"
  | JObj "(string \<times> jsval) list"

text \<open>The truthiness test of \<^verbatim>\<open>if (value && ...)\<close>.\<close>

fun truthy :: "jsval \<Rightarrow> bool" where
  "truthy JUndefined = False"
| "truthy JNull = False"
| "truthy (JBool b) = b"
| "truthy (JNum n) = (n \<noteq> 0)"
| "truthy (JStr s) = (s \<noteq> [])"
| "truthy (JArr xs) = True"
| "truthy (JObj kvs) = True"

text \<open>
  The names of the members that every plain object inherits from \<^verbatim>\<open>Object.prototype\<close>. The
  \<^verbatim>\<open>in\<close> operator and a property read \<^verbatim>\<open>object[key]\<close> find them on an object that has no own
  property of that name.
\<close>

definition objectPrototypeKeys :: "string list" where
  "objectPrototypeKeys =
     [''constructor'', ''__defineGetter__'', ''__defineSetter__'', ''hasOwnProperty'',
      ''__lookupGetter__'', ''__lookupSetter__'', ''isPrototypeOf'', ''propertyIsEnumerable'',
      ''toString'', ''valueOf'', ''__proto__'', ''toLocaleString'']"

section \<open>Validation shapes\<close>

text \<open>
  Shapes are mutable objects that may refer to each other cyclically, so they live in a heap:
  a list of objects, an object's reference being its index. A reference is either such an
  address or a member that a plain object inherits from \<^verbatim>\<open>Object.prototype\<close> (what
  \<^verbatim>\<open>validationTypeCache[name]\<close> yields for a name like \<^verbatim>\<open>toString\<close>); an inherited member
  has no property \<^verbatim>\<open>fields\<close>. The object stored in \<^verbatim>\<open>fields\<close> is reached through its shape
  alone, so it is kept inside the shape: \<open>None\<close> is a shape without \<^verbatim>\<open>fields\<close>, \<open>Some []\<close> one
  whose \<^verbatim>\<open>fields\<close> is the empty object. No reference dangles in the program; \<open>fieldsOf\<close> reads
  an address the heap lacks as a shape without \<^verbatim>\<open>fields\<close>.
\<close>

datatype vref = Shape nat | Inherited string

record ValidationConfig =
  nonNullOptional :: "bool option"

record ValidationField =
  config :: "ValidationConfig option"
  type :: vref

datatype ValidationType = ValidationType (fields: "(string \<times> ValidationField) list option")

type_synonym heap = "ValidationType list"

fun fieldsOf :: "heap \<Rightarrow> vref \<Rightarrow> (string \<times> ValidationField) list option" where
  "fieldsOf h (Shape a) = (if a < length h then fields (h ! a) else None)"
| "fieldsOf h (Inherited n) = None"

text \<open>\<^verbatim>\<open>validationType.fields?.[key]\<close>\<close>

definition fieldAt :: "heap \<Rightarrow> vref \<Rightarrow> string \<Rightarrow> ValidationField option" where
  "fieldAt h vt key = (case fieldsOf h vt of None \<Rightarrow> None | Some fs \<Rightarrow> map_of fs key)"

text \<open>The truthiness of \<^verbatim>\<open>subValidationField?.config?.nonNullOptional\<close>.\<close>

definition flagged :: "ValidationField option \<Rightarrow> bool" where
  "flagged f =
     (case f of
        None \<Rightarrow> False
      | Some fld \<Rightarrow> (case config fld of None \<Rightarrow> False | Some c \<Rightarrow> nonNullOptional c = Some True))"

section \<open>Decimal strings and index keys\<close>

definition digit :: "nat \<Rightarrow> char" where
  "digit d = ''0123456789'' ! d"

text \<open>\<^verbatim>\<open>index.toString()\<close> of a non-negative integer.\<close>

fun toString :: "nat \<Rightarrow> string" where
  "toString n = (if n < 10 then [digit n] else toString (n div 10) @ [digit (n mod 10)])"

declare toString.simps [simp del]

definition isDigit :: "char \<Rightarrow> bool" where
  "isDigit c = (c \<in> set ''0123456789'')"

definition digitValue :: "char \<Rightarrow> nat" where
  "digitValue c = length (takeWhile (\<lambda>d. d \<noteq> c) ''0123456789'')"

definition toNumber :: "string \<Rightarrow> nat" where
  "toNumber s = foldl (\<lambda>acc c. 10 * acc + digitValue c) 0 s"

text \<open>The regular expression \<^verbatim>\<open>/^(?:0|[1-9]\d*)$/\<close> of lodash (\<^verbatim>\<open>reIsUint\<close>).\<close>

definition reIsUint :: "string \<Rightarrow> bool" where
  "reIsUint s = (s \<noteq> [] \<and> list_all isDigit s \<and> (s = ''0'' \<or> hd s \<noteq> CHR ''0''))"

text \<open>
  lodash's \<^verbatim>\<open>isIndex(value)\<close> on a string, with the default bound \<^verbatim>\<open>MAX_SAFE_INTEGER\<close>; and
  the array indices of the language itself, which stop below \<open>2\<^sup>3\<^sup>2 - 1\<close>.
\<close>

definition isIndex :: "string \<Rightarrow> bool" where
  "isIndex s = (reIsUint s \<and> toNumber s < 9007199254740991)"

definition isArrayIndex :: "string \<Rightarrow> bool" where
  "isArrayIndex s = (reIsUint s \<and> toNumber s < 4294967295)"

section \<open>The error map and lodash's set\<close>

text \<open>
  The error map is built by \<^verbatim>\<open>set(errorMap, subPath, null)\<close> only, so its nodes are the terminal
  \<^verbatim>\<open>null\<close> and the containers \<^verbatim>\<open>set\<close> creates: an array (\<open>True\<close>) or a plain object, each
  with its own properties in insertion order. An array keeps its elements under their decimal
  keys, as the language does; the keys it lacks below its length are its holes.
\<close>

datatype ErrorMap = ENull | ENode bool "(string \<times> ErrorMap) list"


fun ownKeyed :: "jsval \<Rightarrow> bool"
  and ownKeyedElements :: "jsval list \<Rightarrow> bool"
  and ownKeyedProps :: "(string \<times> jsval) list \<Rightarrow> bool"
where
  "ownKeyed (JArr xs) = ownKeyedElements xs"
| "ownKeyed (JObj kvs) = ownKeyedProps kvs"
| "ownKeyed v = True"
| "ownKeyedElements [] = True"
| "ownKeyedElements (x # xs) = (ownKeyed x \<and> ownKeyedElements xs)"
| "ownKeyedProps [] = True"
| "ownKeyedProps ((k, v) # kvs) = (k \<notin> set objectPrototypeKeys \<and> ownKeyed v \<and> ownKeyedProps kvs)"

fun baseSet :: "(string \<times> ErrorMap) list \<Rightarrow> string list \<Rightarrow> ErrorMap \<Rightarrow> (string \<times> ErrorMap) list" where
  "baseSet ps [] v = ps"
| "baseSet ps [key] v = AList.update key v ps"
| "baseSet ps (key # key' # rest) v =
     (case map_of ps key of
        Some (ENode arr qs) \<Rightarrow> AList.update key (ENode arr (baseSet qs (key' # rest) v)) ps
      | _ \<Rightarrow> AList.update key (ENode (isIndex key') (baseSet [] (key' # rest) v)) ps)"

fun lodash_set :: "ErrorMap \<Rightarrow> string list \<Rightarrow> ErrorMap \<Rightarrow> ErrorMap" where
  "lodash_set (ENode arr ps) path v = ENode arr (baseSet ps path v)"
| "lodash_set ENull path v = ENull"

section \<open>validate\<close>

text \<open>
  \<^verbatim>\<open>validate(value, validationType, path, errorMap)\<close>; the error map, which the source mutates,
  is passed in and returned. \<open>validateElements\<close> is the \<^verbatim>\<open>value.forEach((subValue, index) => ...)\<close>
  of the array branch, \<open>validateKeys\<close> the \<^verbatim>\<open>Object.keys(value).forEach(key => ...)\<close> of the
  object branch.
\<close>

function validate :: "heap \<Rightarrow> jsval \<Rightarrow> vref option \<Rightarrow> string list \<Rightarrow> ErrorMap \<Rightarrow> ErrorMap"
  and validateElements :: "heap \<Rightarrow> jsval list \<Rightarrow> nat \<Rightarrow> vref \<Rightarrow> string list \<Rightarrow> ErrorMap \<Rightarrow> ErrorMap"
  and validateKeys :: "heap \<Rightarrow> (string \<times> jsval) list \<Rightarrow> vref \<Rightarrow> string list \<Rightarrow> ErrorMap \<Rightarrow> ErrorMap"
where
  "validate h value validationType path errorMap =
     (case validationType of
        None \<Rightarrow> errorMap
      | Some vt \<Rightarrow>
          if truthy value then
            (case value of
               JArr xs \<Rightarrow> validateElements h xs 0 vt path errorMap
             | JObj kvs \<Rightarrow> validateKeys h kvs vt path errorMap
             | _ \<Rightarrow> errorMap)
          else errorMap)"
| "validateElements h [] index vt path errorMap = errorMap"
| "validateElements h (subValue # rest) index vt path errorMap =
     validateElements h rest (Suc index) vt path
       (validate h subValue (Some vt) (path @ [toString index]) errorMap)"
| "validateKeys h [] vt path errorMap = errorMap"
| "validateKeys h ((key, subValue) # rest) vt path errorMap =
     (let subValidationField = fieldAt h vt key;
          subPath = path @ [key];
          errorMap1 = (if subValue = JNull \<and> flagged subValidationField
                       then lodash_set errorMap subPath ENull else errorMap)
      in validateKeys h rest vt path
           (validate h subValue (map_option type subValidationField) subPath errorMap1))"
  by pat_completeness auto
termination
  by (relation "measure (\<lambda>x. case x of
          Inl (h, v, vt, p, e) \<Rightarrow> 2 * size v + 1
        | Inr (Inl (h, xs, i, vt, p, e)) \<Rightarrow> 2 * size_list size xs
        | Inr (Inr (h, kvs, vt, p, e)) \<Rightarrow> 2 * size_list (size_prod (\<lambda>_. 0) size) kvs)") auto

declare validate.simps(1) [simp del]

text \<open>
  The paths at which \<^verbatim>\<open>validate\<close> calls \<^verbatim>\<open>set(errorMap, subPath, null)\<close>, in the order of the
  calls: the same walk, with the calls listed instead of made. Lemma \<open>validate_violations\<close>
  below shows that \<open>validate\<close> performs exactly these calls.
\<close>

function violations :: "heap \<Rightarrow> jsval \<Rightarrow> vref option \<Rightarrow> string list \<Rightarrow> string list list"
  and violationsElements :: "heap \<Rightarrow> jsval list \<Rightarrow> nat \<Rightarrow> vref \<Rightarrow> string list \<Rightarrow> string list list"
  and violationsKeys :: "heap \<Rightarrow> (string \<times> jsval) list \<Rightarrow> vref \<Rightarrow> string list \<Rightarrow> string list list"
where
  "violations h value validationType path =
     (case validationType of
        None \<Rightarrow> []
      | Some vt \<Rightarrow>
          if truthy value then
            (case value of
               JArr xs \<Rightarrow> violationsElements h xs 0 vt path
             | JObj kvs \<Rightarrow> violationsKeys h kvs vt path
             | _ \<Rightarrow> [])
          else [])"
| "violationsElements h [] index vt path = []"
| "violationsElements h (subValue # rest) index vt path =
     violations h subValue (Some vt) (path @ [toString index])
       @ violationsElements h rest (Suc index) vt path"
| "violationsKeys h [] vt path = []"
| "violationsKeys h ((key, subValue) # rest) vt path =
     (let subValidationField = fieldAt h vt key;
          subPath = path @ [key]
      in (if subValue = JNull \<and> flagged subValidationField then [subPath] else [])
           @ violations h subValue (map_option type subValidationField) subPath
           @ violationsKeys h rest vt path)"
  by pat_completeness auto
termination
  by (relation "measure (\<lambda>x. case x of
          Inl (h, v, vt, p) \<Rightarrow> 2 * size v + 1
        | Inr (Inl (h, xs, i, vt, p)) \<Rightarrow> 2 * size_list size xs
        | Inr (Inr (h, kvs, vt, p)) \<Rightarrow> 2 * size_list (size_prod (\<lambda>_. 0) size) kvs)") auto

declare violations.simps(1) [simp del]

section \<open>The error report\<close>

text \<open>
  \<^verbatim>\<open>JSON.stringify(errorMap)\<close>, up to the concrete text: the result is the JSON document as a
  tree. An array is written from index 0 to its length, \<^verbatim>\<open>null\<close> standing for every hole; an
  object is written in the order of its own keys, the array indices first in ascending order
  and then the other keys in insertion order.
\<close>

datatype json = JsonNull | JsonArray "json list" | JsonObject "(string \<times> json) list"

fun arrayLength :: "(string \<times> 'a) list \<Rightarrow> nat" where
  "arrayLength [] = 0"
| "arrayLength ((k, v) # ps) =
     (if isArrayIndex k then max (Suc (toNumber k)) (arrayLength ps) else arrayLength ps)"

definition arrayElements :: "(string \<times> json) list \<Rightarrow> json list" where
  "arrayElements js =
     map (\<lambda>i. case map_of js (toString i) of None \<Rightarrow> JsonNull | Some j \<Rightarrow> j) [0..<arrayLength js]"

definition ownPropertyOrder :: "(string \<times> 'a) list \<Rightarrow> (string \<times> 'a) list" where
  "ownPropertyOrder ps =
     sort_key (\<lambda>p. toNumber (fst p)) (filter (\<lambda>p. isArrayIndex (fst p)) ps)
       @ filter (\<lambda>p. \<not> isArrayIndex (fst p)) ps"

fun stringify :: "ErrorMap \<Rightarrow> json"
  and stringifyProps :: "(string \<times> ErrorMap) list \<Rightarrow> (string \<times> json) list"
where
  "stringify ENull = JsonNull"
| "stringify (ENode isArray ps) =
     (if isArray then JsonArray (arrayElements (stringifyProps ps))
      else JsonObject (ownPropertyOrder (stringifyProps ps)))"
| "stringifyProps [] = []"
| "stringifyProps ((k, v) # ps) = (k, stringify v) # stringifyProps ps"

text \<open>\<^verbatim>\<open>new Error(message + JSON.stringify(errorMap))\<close>: the message's prefix and the document.\<close>

datatype error = Error string json

text \<open>\<^verbatim>\<open>Object.keys(errorMap)\<close>\<close>

fun keys :: "ErrorMap \<Rightarrow> string list" where
  "keys ENull = []"
| "keys (ENode isArray ps) = map fst (ownPropertyOrder ps)"

text \<open>
  The resolver that \<^verbatim>\<open>onCreateFieldResolver\<close> returns for an operation with an argument shape:
  \<open>Inl\<close> is the error it throws, \<open>Inr\<close> what the continuation \<^verbatim>\<open>next\<close> returns.
\<close>

definition resolver ::
  "heap \<Rightarrow> vref \<Rightarrow> 'root \<Rightarrow> jsval \<Rightarrow> 'ctx \<Rightarrow> 'info \<Rightarrow> ('root \<Rightarrow> jsval \<Rightarrow> 'ctx \<Rightarrow> 'info \<Rightarrow> 'res) \<Rightarrow> error + 'res" where
  "resolver h argsValidationType root args ctx info next =
     (let errorMap = validate h args (Some argsValidationType) [''args''] (ENode False []) in
      if length (keys errorMap) \<noteq> 0
      then Inl (Error ''following arguments violated nonNullOptional constrain: '' (stringify errorMap))
      else Inr (next root args ctx info))"

section \<open>Reading the error map, and well-formed values\<close>

text \<open>
  \<open>errorAt\<close> reads the error map along a path, as \<^verbatim>\<open>errorMap.args.a\<close> does: \<open>None\<close> when the
  path leaves the map. A value is well formed when the keys of each of its objects are
  distinct, as the keys of a JavaScript object are. A list of paths is an antichain when no
  path is a proper prefix of another.
\<close>

fun errorAt :: "ErrorMap \<Rightarrow> string list \<Rightarrow> ErrorMap option" where
  "errorAt e [] = Some e"
| "errorAt ENull (k # rest) = None"
| "errorAt (ENode arr ps) (k # rest) = (case map_of ps k of None \<Rightarrow> None | Some e \<Rightarrow> errorAt e rest)"






text \<open>
  \<open>child v k\<close> is the member of the container \<open>v\<close> under the key \<open>k\<close>, and \<open>walk v q\<close> holds
  when the non-empty path \<open>q\<close> leads through containers of \<open>v\<close> to a member. An error map is
  \<open>typedBy\<close> a value when it has an array where the value has a list and an object where the
  value has an object, under keys of the value only.
\<close>

fun child :: "jsval \<Rightarrow> string \<Rightarrow> jsval option" where
  "child (JArr xs) k =
     (if toNumber k < length xs \<and> k = toString (toNumber k) then Some (xs ! toNumber k) else None)"
| "child (JObj kvs) k = map_of kvs k"
| "child v k = None"


fun typedBy :: "jsval \<Rightarrow> ErrorMap \<Rightarrow> bool"
  and typedProps :: "jsval \<Rightarrow> (string \<times> ErrorMap) list \<Rightarrow> bool"
where
  "typedBy v ENull = True"
| "typedBy v (ENode isArr ps) =
     ((case v of JArr xs \<Rightarrow> isArr | JObj kvs \<Rightarrow> \<not> isArr | _ \<Rightarrow> False)
      \<and> distinct (map fst ps) \<and> typedProps v ps)"
| "typedProps v [] = True"
| "typedProps v ((k, e) # ps) =
     ((case child v k of None \<Rightarrow> False | Some v' \<Rightarrow> typedBy v' e) \<and> typedProps v ps)"



section \<open>Schema types\<close>

text \<open>
  The input types of the schema, as the compiler sees them: a named type, or a list or
  non-null wrapper around a type. A named type refers to its definition through the schema,
  a table from names (unique in a schema) to definitions: an input object with its fields in
  the order of \<^verbatim>\<open>Object.keys(type.getFields())\<close>, or a leaf (scalar or enum). A name the table
  lacks is a leaf. A field carries its type and the value of
  \<^verbatim>\<open>extensions?.nexus?.config?.nonNullOptional\<close> (\<open>None\<close> when it is undefined).
\<close>

datatype GraphQLInputType =
    NamedType string
  | ListType GraphQLInputType
  | NonNullType GraphQLInputType

record InputField =
  inputType :: GraphQLInputType
  extensionsNonNullOptional :: "bool option"

datatype NamedTypeDef = InputObjectType "(string \<times> InputField) list" | LeafType

type_synonym schema = "(string \<times> NamedTypeDef) list"

fun getNamedType :: "GraphQLInputType \<Rightarrow> GraphQLInputType" where
  "getNamedType (NamedType n) = NamedType n"
| "getNamedType (ListType t) = getNamedType t"
| "getNamedType (NonNullType t) = getNamedType t"

fun isListType :: "GraphQLInputType \<Rightarrow> bool" where
  "isListType (ListType t) = True"
| "isListType t = False"

fun isNonNullType :: "GraphQLInputType \<Rightarrow> bool" where
  "isNonNullType (NonNullType t) = True"
| "isNonNullType t = False"

fun getFields :: "schema \<Rightarrow> GraphQLInputType \<Rightarrow> (string \<times> InputField) list option" where
  "getFields sch (NamedType n) =
     (case map_of sch n of Some (InputObjectType fs) \<Rightarrow> Some fs | _ \<Rightarrow> None)"
| "getFields sch t = None"

section \<open>The shape compiler\<close>

text \<open>
  The state of the plugin's closure: the heap of shape objects and \<^verbatim>\<open>validationTypeCache\<close>, the
  own properties of the cache object (a name and the address of its shape) in insertion order.
  The \<^verbatim>\<open>in\<close> operator also finds the members a plain object inherits from
  \<^verbatim>\<open>Object.prototype\<close> (\<open>objectPrototypeKeys\<close>), and reading such a key yields the inherited
  member.
\<close>

datatype compiler = Compiler (shapes: heap) (validationTypeCache: "(string \<times> nat) list")

definition inCache :: "compiler \<Rightarrow> string \<Rightarrow> bool" where
  "inCache st n = (map_of (validationTypeCache st) n \<noteq> None \<or> n \<in> set objectPrototypeKeys)"

definition cacheGet :: "compiler \<Rightarrow> string \<Rightarrow> vref" where
  "cacheGet st n = (case map_of (validationTypeCache st) n of Some a \<Rightarrow> Shape a | None \<Rightarrow> Inherited n)"

definition newObject :: "compiler \<Rightarrow> nat \<times> compiler" where
  "newObject st =
     (length (shapes st), Compiler (shapes st @ [ValidationType None]) (validationTypeCache st))"

definition cachePut :: "compiler \<Rightarrow> string \<Rightarrow> nat \<Rightarrow> compiler" where
  "cachePut st n a = Compiler (shapes st) (AList.update n a (validationTypeCache st))"

definition setFields :: "compiler \<Rightarrow> nat \<Rightarrow> (string \<times> ValidationField) list \<Rightarrow> compiler" where
  "setFields st a fs =
     Compiler ((shapes st)[a := ValidationType (Some fs)]) (validationTypeCache st)"

definition putField :: "compiler \<Rightarrow> nat \<Rightarrow> string \<Rightarrow> ValidationField \<Rightarrow> compiler" where
  "putField st a key f =
     (case fieldsOf (shapes st) (Shape a) of
        Some fs \<Rightarrow> setFields st a (AList.update key f fs)
      | None \<Rightarrow> st)"

text \<open>The names of the schema that are not yet own keys of the cache.\<close>

definition uncached :: "schema \<Rightarrow> compiler \<Rightarrow> nat" where
  "uncached sch st = card (fst ` set sch - fst ` set (validationTypeCache st))"

text \<open>
  \<^verbatim>\<open>getValidationType = cacheEnhancer(mapper)\<close>: \<open>getValidationType\<close> is the function
  \<^verbatim>\<open>cacheEnhancer\<close> returns, \<open>mapper\<close> the arrow function it wraps (its second argument is the
  address of the shape object it is given), \<open>forEachKey\<close> the
  \<^verbatim>\<open>inputFieldKeyList.forEach(key => ...)\<close> that fills \<^verbatim>\<open>fields\<close>, the object stored in
  \<^verbatim>\<open>validationType.fields\<close> just before; it runs over the entries of the filtered keys.
\<close>

function getValidationType :: "schema \<Rightarrow> compiler \<Rightarrow> GraphQLInputType \<Rightarrow> vref \<times> compiler"
  and mapper :: "schema \<Rightarrow> compiler \<Rightarrow> GraphQLInputType \<Rightarrow> nat \<Rightarrow> vref \<times> compiler"
  and forEachKey :: "schema \<Rightarrow> compiler \<Rightarrow> nat \<Rightarrow> (string \<times> InputField) list \<Rightarrow> compiler"
where
  "getValidationType sch st ty =
     (case ty of
        NamedType n \<Rightarrow>
          if inCache st n then (cacheGet st n, st)
          else (case newObject st of
                  (validationNode, st1) \<Rightarrow> mapper sch (cachePut st1 n validationNode) ty validationNode)
      | _ \<Rightarrow> (case newObject st of (fresh, st1) \<Rightarrow> mapper sch st1 ty fresh))"
| "mapper sch st ty validationType =
     (if isListType ty \<or> isNonNullType ty then getValidationType sch st (getNamedType ty)
      else
        (case getFields sch ty of
           Some inputFieldMap \<Rightarrow>
             (let inputFieldKeyList =
                    filter (\<lambda>(key, field). extensionsNonNullOptional field = Some True) inputFieldMap
              in if length inputFieldKeyList > 0
                 then (Shape validationType,
                       forEachKey sch (setFields st validationType []) validationType inputFieldKeyList)
                 else (Shape validationType, st))
         | None \<Rightarrow> (Shape validationType, st)))"
| "forEachKey sch st fieldsOwner [] = st"
| "forEachKey sch st fieldsOwner ((key, subInputField) # rest) =
     (case getValidationType sch st (inputType subInputField) of
        (subValidationType, st1) \<Rightarrow>
          forEachKey sch
            (putField st1 fieldsOwner key
               \<lparr>config = Some \<lparr>nonNullOptional = extensionsNonNullOptional subInputField\<rparr>,
                type = subValidationType\<rparr>)
            fieldsOwner rest)"
  by pat_completeness auto

text \<open>
  The recursion is nested (the state a field is compiled in comes out of the compilation of the
  fields before it), so its termination needs a fact about the function's own result first:
  the cache only grows. The measure is the number of uncached names of the schema, then the
  position in the call chain.
\<close>

lemma cache_newObject [simp]: "validationTypeCache (snd (newObject st)) = validationTypeCache st"
  by (simp add: newObject_def)

lemma cache_cachePut [simp]:
  "fst ` set (validationTypeCache (cachePut st n a)) = insert n (fst ` set (validationTypeCache st))"
  by (simp add: cachePut_def dom_update)

lemma cache_setFields [simp]: "validationTypeCache (setFields st a fs) = validationTypeCache st"
  by (simp add: setFields_def)

lemma cache_putField [simp]: "validationTypeCache (putField st a key f) = validationTypeCache st"
  by (simp add: putField_def split: option.splits)

lemma cache_grows_dom:
  "getValidationType_mapper_forEachKey_dom (Inl (sch, st, ty)) \<Longrightarrow>
     fst ` set (validationTypeCache st) \<subseteq> fst ` set (validationTypeCache (snd (getValidationType sch st ty)))"
  "getValidationType_mapper_forEachKey_dom (Inr (Inl (sch, st, ty, a))) \<Longrightarrow>
     fst ` set (validationTypeCache st) \<subseteq> fst ` set (validationTypeCache (snd (mapper sch st ty a)))"
  "getValidationType_mapper_forEachKey_dom (Inr (Inr (sch, st, a, es))) \<Longrightarrow>
     fst ` set (validationTypeCache st) \<subseteq> fst ` set (validationTypeCache (forEachKey sch st a es))"
proof (induction sch st ty and sch st ty a and sch st a es rule: getValidationType_mapper_forEachKey.pinduct)
  case (1 sch st ty)
  show ?case
  proof (cases ty)
    case (NamedType n)
    show ?thesis
    proof (cases "inCache st n")
      case True
      with NamedType 1(1) show ?thesis by (simp add: getValidationType.psimps)
    next
      case False
      obtain x y where xy: "newObject st = (x, y)" by (cases "newObject st")
      from 1(2)[OF NamedType False xy[symmetric]] xy cache_newObject[of st]
      show ?thesis using NamedType False 1(1) by (auto simp: getValidationType.psimps)
    qed
  next
    case (ListType t)
    obtain x y where xy: "newObject st = (x, y)" by (cases "newObject st")
    from 1(3)[OF ListType xy[symmetric]] xy cache_newObject[of st]
    show ?thesis using ListType 1(1) by (auto simp: getValidationType.psimps)
  next
    case (NonNullType t)
    obtain x y where xy: "newObject st = (x, y)" by (cases "newObject st")
    from 1(4)[OF NonNullType xy[symmetric]] xy cache_newObject[of st]
    show ?thesis using NonNullType 1(1) by (auto simp: getValidationType.psimps)
  qed
next
  case (2 sch st ty validationType)
  show ?case
  proof (cases "isListType ty \<or> isNonNullType ty")
    case True
    with 2(1,2) show ?thesis by (simp add: mapper.psimps)
  next
    case False
    show ?thesis
    proof (cases "getFields sch ty")
      case None
      with False 2(1) show ?thesis by (simp add: mapper.psimps)
    next
      case (Some m)
      show ?thesis
      proof (cases "0 < length (filter (\<lambda>(key, field). extensionsNonNullOptional field = Some True) m)")
        case True
        from 2(3)[OF False Some refl True] False Some True 2(1)
        show ?thesis by (simp add: mapper.psimps Let_def)
      next
        case F: False
        with False Some 2(1) show ?thesis by (simp add: mapper.psimps Let_def)
      qed
    qed
  qed
next
  case (3 sch st fieldsOwner)
  then show ?case by (simp add: forEachKey.psimps)
next
  case (4 sch st fieldsOwner key subInputField rest)
  obtain x y where xy: "getValidationType sch st (inputType subInputField) = (x, y)"
    by (cases "getValidationType sch st (inputType subInputField)")
  from 4(2) xy have a: "fst ` set (validationTypeCache st) \<subseteq> fst ` set (validationTypeCache y)" by simp
  from 4(3)[OF xy[symmetric]] have b: "fst ` set (validationTypeCache y)
      \<subseteq> fst ` set (validationTypeCache (forEachKey sch (putField y fieldsOwner key
            \<lparr>config = Some \<lparr>nonNullOptional = extensionsNonNullOptional subInputField\<rparr>, type = x\<rparr>) fieldsOwner rest))"
    by simp
  from a b show ?case using 4(1) xy by (simp add: forEachKey.psimps)
qed

lemma uncached_mono:
  "fst ` set (validationTypeCache st) \<subseteq> fst ` set (validationTypeCache st') \<Longrightarrow> uncached sch st' \<le> uncached sch st"
  unfolding uncached_def by (intro card_mono) auto

lemma uncached_cachePut:
  "n \<in> fst ` set sch \<Longrightarrow> n \<notin> fst ` set (validationTypeCache st) \<Longrightarrow>
   uncached sch (cachePut st n a) < uncached sch st"
  unfolding uncached_def by (intro psubset_card_mono) auto

lemma uncached_cachePut_le: "uncached sch (cachePut st n a) \<le> uncached sch st"
  by (rule uncached_mono) auto

lemma getFields_in_schema: "getFields sch (NamedType n) = Some fs \<Longrightarrow> n \<in> fst ` set sch"
  by (auto split: option.splits NamedTypeDef.splits dest: map_of_SomeD intro: rev_image_eqI)

lemma not_inCache_fresh: "\<not> inCache st n \<Longrightarrow> n \<notin> fst ` set (validationTypeCache st)"
  by (auto simp: inCache_def map_of_eq_None_iff)

lemma getNamedType_named: "\<exists>n. getNamedType ty = NamedType n"
  by (induction ty) auto

lemma uncached_newObject: "(x, y) = newObject st \<Longrightarrow> uncached sch y = uncached sch st"
  using cache_newObject[of st] by (metis snd_conv uncached_def)

lemma compile_total: "All getValidationType_mapper_forEachKey_dom"
  apply (relation "inv_image (less_than <*lex*> less_than)
    (\<lambda>x. case x of
       Inl (sch, st, ty) \<Rightarrow> (uncached sch st, case ty of NamedType n \<Rightarrow> 1 | _ \<Rightarrow> 3)
     | Inr (Inl (sch, st, ty, a)) \<Rightarrow>
         (uncached sch st,
          if isListType ty \<or> isNonNullType ty then 2
          else (case getFields sch ty of Some fs \<Rightarrow> 5 + length fs | None \<Rightarrow> 0))
     | Inr (Inr (sch, st, a, es)) \<Rightarrow> (uncached sch st, 4 + length es))")
  subgoal by (intro wf_inv_image wf_lex_prod wf_less_than)
  subgoal for sch st ty n x y
  proof -
    assume a: "ty = NamedType n" "\<not> inCache st n" "(x, y) = newObject st"
    have y: "validationTypeCache y = validationTypeCache st"
      using a(3) cache_newObject[of st] by (metis snd_conv)
    show ?thesis
    proof (cases "getFields sch (NamedType n)")
      case None
      with a show ?thesis
        using uncached_cachePut_le[of sch y n x] uncached_newObject[OF a(3), of sch] by auto
    next
      case (Some fs)
      from uncached_cachePut[OF getFields_in_schema[OF Some], of y x] not_inCache_fresh[OF a(2)] y
      have "uncached sch (cachePut y n x) < uncached sch y" by simp
      with uncached_newObject[OF a(3), of sch] show ?thesis by simp
    qed
  qed
  subgoal using uncached_newObject by simp
  subgoal using uncached_newObject by simp
  subgoal for sch st ty validationType
    using getNamedType_named[of ty] by auto
  subgoal for sch st ty validationType inputFieldMap inputFieldKeyList
  proof -
    assume a: "\<not> (isListType ty \<or> isNonNullType ty)" "getFields sch ty = Some inputFieldMap"
      "inputFieldKeyList = filter (\<lambda>(key, field). extensionsNonNullOptional field = Some True) inputFieldMap"
      "0 < length inputFieldKeyList"
    have "uncached sch (setFields st validationType []) = uncached sch st" by (simp add: uncached_def)
    moreover have "length inputFieldKeyList \<le> length inputFieldMap" using a(3) by simp
    ultimately show ?thesis using a(1,2) by simp
  qed
  subgoal for sch st fieldsOwner key subInputField rest
    by (cases "inputType subInputField") auto
  subgoal for sch st fieldsOwner key subInputField rest subValidationType st1
  proof -
    assume a: "(subValidationType, st1) = getValidationType sch st (inputType subInputField)"
      "getValidationType_mapper_forEachKey_dom (Inl (sch, st, inputType subInputField))"
    from cache_grows_dom(1)[OF a(2)] a(1)
    have "fst ` set (validationTypeCache st) \<subseteq> fst ` set (validationTypeCache st1)"
      by (metis snd_conv)
    from uncached_mono[OF this, of sch]
    have "uncached sch (putField st1 fieldsOwner key
            \<lparr>config = Some \<lparr>nonNullOptional = extensionsNonNullOptional subInputField\<rparr>, type = subValidationType\<rparr>)
          \<le> uncached sch st" by (simp add: uncached_def)
    then show ?thesis by auto
  qed
  done

termination getValidationType
  by (rule compile_total)

declare getValidationType.simps [simp del] mapper.simps [simp del]

text \<open>
  \<^verbatim>\<open>createArgsValidationType(argMap)\<close>; an argument is given by its type. \<open>forEachArg\<close> is the
  \<^verbatim>\<open>Object.keys(argMap).forEach(key => ...)\<close> that fills the local \<^verbatim>\<open>fields\<close> (here
  \<open>argFields\<close>).
\<close>

fun forEachArg ::
  "schema \<Rightarrow> compiler \<Rightarrow> (string \<times> ValidationField) list \<Rightarrow> (string \<times> GraphQLInputType) list
     \<Rightarrow> (string \<times> ValidationField) list \<times> compiler" where
  "forEachArg sch st argFields [] = (argFields, st)"
| "forEachArg sch st argFields ((key, ty) # rest) =
     (case getValidationType sch st ty of
        (subValidationType, st1) \<Rightarrow>
          if fieldsOf (shapes st1) subValidationType \<noteq> None
          then forEachArg sch st1
                 (AList.update key \<lparr>config = None, type = subValidationType\<rparr> argFields) rest
          else forEachArg sch st1 argFields rest)"

definition createArgsValidationType ::
  "schema \<Rightarrow> compiler \<Rightarrow> (string \<times> GraphQLInputType) list option \<Rightarrow> vref option \<times> compiler" where
  "createArgsValidationType sch st argMap =
     (case argMap of
        None \<Rightarrow> (None, st)
      | Some args \<Rightarrow>
          (case forEachArg sch st [] args of
             (argFields, st1) \<Rightarrow>
               if length argFields \<noteq> 0
               then (case newObject st1 of (a, st2) \<Rightarrow> (Some (Shape a), setFields st2 a argFields))
               else (None, st1)))"

text \<open>
  \<^verbatim>\<open>onCreateFieldResolver(config)\<close>, given \<^verbatim>\<open>config.fieldConfig?.args\<close>: the resolver it installs,
  or \<open>None\<close> when it returns \<^verbatim>\<open>undefined\<close>.
\<close>

definition onCreateFieldResolver ::
  "schema \<Rightarrow> compiler \<Rightarrow> (string \<times> GraphQLInputType) list option
     \<Rightarrow> ('root \<Rightarrow> jsval \<Rightarrow> 'ctx \<Rightarrow> 'info \<Rightarrow> ('root \<Rightarrow> jsval \<Rightarrow> 'ctx \<Rightarrow> 'info \<Rightarrow> 'res) \<Rightarrow> error + 'res) option \<times> compiler" where
  "onCreateFieldResolver sch st args =
     (case createArgsValidationType sch st args of
        (None, st1) \<Rightarrow> (None, st1)
      | (Some argsValidationType, st1) \<Rightarrow> (Some (resolver (shapes st1) argsValidationType), st1))"

text \<open>The state of a plugin that has compiled nothing yet.\<close>

definition emptyCompiler :: compiler where
  "emptyCompiler = Compiler [] []"

section \<open>Constrained types and consistent states\<close>

text \<open>
  A named type has a flagged field when the filter of \<open>mapper\<close> keeps one of its fields. A type
  has a constrained field beneath it when its named type has a flagged field, or a field of
  its named type has a constrained field beneath its own type. A state is consistent with the
  schema when every cached address is allocated, only types with a flagged field have a shape
  with a \<^verbatim>\<open>fields\<close> object, and no two names share a shape: the states the plugin reaches
  from \<open>emptyCompiler\<close> (lemmas \<open>consistent_empty\<close>, \<open>consistent_createArgsValidationType\<close>).
\<close>

definition hasFlagged :: "schema \<Rightarrow> string \<Rightarrow> bool" where
  "hasFlagged sch n =
     (case getFields sch (NamedType n) of
        Some fs \<Rightarrow> filter (\<lambda>(key, field). extensionsNonNullOptional field = Some True) fs \<noteq> []
      | None \<Rightarrow> False)"

inductive constrainedBeneath :: "schema \<Rightarrow> GraphQLInputType \<Rightarrow> bool" for sch where
  here: "getNamedType ty = NamedType n \<Longrightarrow> hasFlagged sch n \<Longrightarrow> constrainedBeneath sch ty"
| below: "getNamedType ty = NamedType n \<Longrightarrow> getFields sch (NamedType n) = Some fs \<Longrightarrow> (key, f) \<in> set fs
          \<Longrightarrow> constrainedBeneath sch (inputType f) \<Longrightarrow> constrainedBeneath sch ty"

definition consistent :: "schema \<Rightarrow> compiler \<Rightarrow> bool" where
  "consistent sch st =
     ((\<forall>n a. map_of (validationTypeCache st) n = Some a \<longrightarrow>
          a < length (shapes st) \<and> (fieldsOf (shapes st) (Shape a) \<noteq> None \<longrightarrow> hasFlagged sch n))
      \<and> (\<forall>n m a. map_of (validationTypeCache st) n = Some a \<and> map_of (validationTypeCache st) m = Some a
            \<longrightarrow> n = m))"

section \<open>Decimal strings\<close>

lemma digit_cases: "d < 10 \<Longrightarrow> d = 0 \<or> d = 1 \<or> d = 2 \<or> d = 3 \<or> d = 4 \<or> d = 5 \<or> d = 6 \<or> d = 7 \<or> d = 8 \<or> d = (9::nat)"
  by arith

lemma digitValue_digit: "d < 10 \<Longrightarrow> digitValue (digit d) = d"
  using digit_cases[of d] by (auto simp: digitValue_def digit_def)



lemma toNumber_snoc: "toNumber (s @ [c]) = 10 * toNumber s + digitValue c"
  by (simp add: toNumber_def)

lemma toNumber_toString: "toNumber (toString n) = n"
proof (induction n rule: toString.induct)
  case (1 n)
  show ?case
  proof (cases "n < 10")
    case True
    then show ?thesis
      by (subst toString.simps) (simp add: toNumber_def digitValue_digit)
  next
    case False
    then have "toNumber (toString n) = 10 * toNumber (toString (n div 10)) + digitValue (digit (n mod 10))"
      by (subst toString.simps) (simp add: toNumber_snoc)
    with 1 False show ?thesis by (simp add: digitValue_digit)
  qed
qed





lemma toString_0: "toString 0 = ''0''"
  by (subst toString.simps) (simp add: digit_def)




section \<open>The calls of set that validate makes\<close>

lemma validate_violations:
  "validate h v vt p em = foldl (\<lambda>em q. lodash_set em q ENull) em (violations h v vt p)"
  "validateElements h xs i vt' p em = foldl (\<lambda>em q. lodash_set em q ENull) em (violationsElements h xs i vt' p)"
  "validateKeys h kvs vt' p em = foldl (\<lambda>em q. lodash_set em q ENull) em (violationsKeys h kvs vt' p)"
  by (induction h v vt p em and h xs i vt' p em and h kvs vt' p em rule: validate_validateElements_validateKeys.induct)
     (auto simp: Let_def validate.simps(1) violations.simps(1) split: option.splits jsval.splits)

lemma violations_shape:
  "q \<in> set (violations h v vt p) \<Longrightarrow> \<exists>k r. q = p @ k # r"
  "q \<in> set (violationsElements h xs i vt' p) \<Longrightarrow> \<exists>j r. i \<le> j \<and> j < i + length xs \<and> q = p @ toString j # r \<and> r \<noteq> []"
  "q \<in> set (violationsKeys h kvs vt' p) \<Longrightarrow> \<exists>k r. k \<in> fst ` set kvs \<and> q = p @ k # r"
proof (induction h v vt p and h xs i vt' p and h kvs vt' p arbitrary: q and q and q rule: violations_violationsElements_violationsKeys.induct)
  case (1 h "value" validationType path)
  note [simp] = violations.simps(1)
  from 1(3) obtain vt where vt: "validationType = Some vt"
    by (cases validationType) auto
  show ?case
  proof (cases "value")
    case (JArr xs)
    with 1(3) vt have "q \<in> set (violationsElements h xs 0 vt path)" by simp
    from 1(1)[OF vt _ JArr this] JArr show ?thesis by auto
  next
    case (JObj kvs)
    with 1(3) vt have "q \<in> set (violationsKeys h kvs vt path)" by simp
    from 1(2)[OF vt _ JObj this] JObj show ?thesis by auto
  qed (use 1(3) vt in auto)
next
  case (2 h index vt path)
  then show ?case by simp
next
  case (3 h subValue rest index vt path)
  from 3(3) consider "q \<in> set (violations h subValue (Some vt) (path @ [toString index]))"
    | "q \<in> set (violationsElements h rest (Suc index) vt path)" by auto
  then show ?case
  proof cases
    case 1
    from 3(1)[OF 1] obtain k r where "q = (path @ [toString index]) @ k # r" by blast
    then show ?thesis by (intro exI[of _ index] exI[of _ "k # r"]) simp
  next
    case 2
    from 3(2)[OF 2] obtain j r where "Suc index \<le> j" "j < Suc index + length rest" "q = path @ toString j # r" "r \<noteq> []" by blast
    then show ?thesis by (intro exI[of _ j] exI[of _ r]) simp
  qed
next
  case (4 h vt path)
  then show ?case by simp
next
  case (5 h key subValue rest vt path)
  from 5(3) consider "q = path @ [key]"
    | "q \<in> set (violations h subValue (map_option type (fieldAt h vt key)) (path @ [key]))"
    | "q \<in> set (violationsKeys h rest vt path)" by (auto simp: Let_def split: if_splits)
  then show ?case
  proof cases
    case 1
    then show ?thesis by (intro exI[of _ key] exI[of _ "[]"]) simp
  next
    case 2
    from 5(1)[OF refl refl 2] obtain k r where "q = (path @ [key]) @ k # r" by blast
    then show ?thesis by (intro exI[of _ key] exI[of _ "k # r"]) simp
  next
    case 3
    from 5(2)[OF refl refl 3] show ?thesis by auto
  qed
qed

lemma violationsKeys_direct:
  "path @ [key] \<in> set (violationsKeys h kvs vt path) \<longleftrightarrow> (key, JNull) \<in> set kvs \<and> flagged (fieldAt h vt key)"
proof (induction kvs)
  case Nil
  then show ?case by simp
next
  case (Cons kv kvs)
  obtain k v where kv: "kv = (k, v)" by (cases kv)
  have sub: "path @ [key] \<notin> set (violations h v (map_option type (fieldAt h vt k)) (path @ [k]))"
  proof
    assume "path @ [key] \<in> set (violations h v (map_option type (fieldAt h vt k)) (path @ [k]))"
    from violations_shape(1)[OF this] obtain k' r where "path @ [key] = (path @ [k]) @ k' # r" by blast
    then show False by simp
  qed
  show ?case using Cons sub by (auto simp: kv Let_def)
qed


section \<open>Paths in the error map\<close>



lemma violations_falsy: "\<not> truthy v \<Longrightarrow> violations h v vt p = []"
  by (cases vt) (simp_all add: violations.simps(1))


lemma map_of_update: "map_of (AList.update k v ps) k' = (if k' = k then Some v else map_of ps k')"
  by (simp add: update_conv')

lemma errorAt_baseSet_same: "q \<noteq> [] \<Longrightarrow> errorAt (ENode a (baseSet ps q v)) q = Some v"
proof (induction ps q v arbitrary: a rule: baseSet.induct)
  case (3 ps key key' rest v)
  show ?case
  proof (cases "map_of ps key")
    case None
    then show ?thesis using 3(1)[OF None, of "isIndex key'"] by (simp add: map_of_update)
  next
    case (Some e)
    then show ?thesis
    proof (cases e)
      case ENull
      with Some show ?thesis using 3(2)[OF Some ENull, of "isIndex key'"] by (simp add: map_of_update)
    next
      case (ENode arr qs)
      with Some show ?thesis using 3(3)[OF Some ENode, of arr] by (simp add: map_of_update)
    qed
  qed
qed (simp_all add: map_of_update)


lemma errorAt_empty: "errorAt (ENode a []) q \<noteq> Some ENull"
  by (cases q) auto

lemma errorAt_baseSet_origin:
  "v = ENull \<Longrightarrow> errorAt (ENode a (baseSet ps q' v)) q = Some ENull
   \<Longrightarrow> q = q' \<or> errorAt (ENode a ps) q = Some ENull"
proof (induction ps q' v arbitrary: a q rule: baseSet.induct)
  case (1 ps v)
  then show ?case by simp
next
  case (2 ps key v)
  from 2(2) obtain k r where q: "q = k # r" by (cases q) auto
  show ?case
  proof (cases "k = key")
    case True
    with 2 q have "r = []" by (cases r) (auto simp: map_of_update)
    with True q show ?thesis by simp
  next
    case False
    with 2(2) q show ?thesis by (simp add: map_of_update)
  qed
next
  case (3 ps key key' rest v)
  from 3(5) obtain k r where q: "q = k # r" by (cases q) auto
  show ?case
  proof (cases "k = key")
    case False
    with 3(5) q show ?thesis by (auto simp: map_of_update split: option.splits ErrorMap.splits)
  next
    case True
    show ?thesis
    proof (cases "map_of ps key")
      case None
      with 3(5) q True have "errorAt (ENode (isIndex key') (baseSet [] (key' # rest) v)) r = Some ENull"
        by (simp add: map_of_update)
      from 3(1)[OF None 3(4) this] errorAt_empty have "r = key' # rest" by blast
      then show ?thesis using q True by simp
    next
      case (Some e)
      show ?thesis
      proof (cases e)
        case ENull
        with Some 3(5) q True have "errorAt (ENode (isIndex key') (baseSet [] (key' # rest) v)) r = Some ENull"
          by (simp add: map_of_update)
        from 3(2)[OF Some ENull 3(4) this] errorAt_empty have "r = key' # rest" by blast
        then show ?thesis using q True by simp
      next
        case (ENode arr qs)
        with Some 3(5) q True have "errorAt (ENode arr (baseSet qs (key' # rest) v)) r = Some ENull"
          by (simp add: map_of_update)
        from 3(3)[OF Some ENode 3(4) this] have "r = key' # rest \<or> errorAt (ENode arr qs) r = Some ENull" .
        then show ?thesis using q True Some ENode by auto
      qed
    qed
  qed
qed

lemma foldl_set_ENode:
  "\<exists>ps'. foldl (\<lambda>em q. lodash_set em q ENull) (ENode a ps) vs = ENode a ps'"
  by (induction vs arbitrary: ps) auto

lemma errorAt_lodash_set_same:
  "q \<noteq> [] \<Longrightarrow> errorAt (lodash_set (ENode a ps) q v) q = Some v"
  by (simp add: errorAt_baseSet_same)


lemma errorAt_foldl_set_origin:
  "errorAt (foldl (\<lambda>em q. lodash_set em q ENull) (ENode a ps) vs) q = Some ENull
   \<Longrightarrow> q \<in> set vs \<or> errorAt (ENode a ps) q = Some ENull"
proof (induction vs rule: rev_induct)
  case Nil
  then show ?case by simp
next
  case (snoc q' vs)
  obtain ps' where ps': "foldl (\<lambda>em q. lodash_set em q ENull) (ENode a ps) vs = ENode a ps'"
    using foldl_set_ENode by blast
  from snoc(2) ps' have "errorAt (ENode a (baseSet ps' q' ENull)) q = Some ENull" by simp
  from errorAt_baseSet_origin[OF refl this] have "q = q' \<or> errorAt (ENode a ps') q = Some ENull" .
  with snoc(1) ps' show ?case by auto
qed







lemma length_ownPropertyOrder: "length (ownPropertyOrder ps) = length ps"
  by (simp add: ownPropertyOrder_def sum_length_filter_compl)

lemma keys_empty_iff: "length (keys em) = 0 \<longleftrightarrow> em = ENull \<or> (\<exists>a. em = ENode a [])"
  by (cases em) (auto simp: length_ownPropertyOrder)


section \<open>Plain values\<close>







section \<open>The walk of a list\<close>

lemma validateElements_enumerate:
  "validateElements h xs i vt path errorMap =
     foldl (\<lambda>em (index, subValue). validate h subValue (Some vt) (path @ [toString index]) em)
       errorMap (enumerate i xs)"
  by (induction xs arbitrary: i errorMap) simp_all

lemma violationsElements_enumerate:
  "violationsElements h xs i vt path =
     concat (map (\<lambda>(index, subValue). violations h subValue (Some vt) (path @ [toString index])) (enumerate i xs))"
  by (induction xs arbitrary: i) simp_all

text \<open>
  C7: on a list, \<open>validate\<close> applies the same shape to every element, the path extended by the
  element's index as a decimal string (\<open>toNumber\<close> reads the index back). Validating
  \<^verbatim>\<open>[{a: null}, {a: "x"}]\<close> against the shape that flags \<open>a\<close> records one violation, at
  \<^verbatim>\<open>args.0.a\<close>, and no other.
\<close>
theorem validate_list_elements:
  "validate h (JArr xs) (Some vt) path errorMap =
     foldl (\<lambda>em (index, subValue). validate h subValue (Some vt) (path @ [toString index]) em)
       errorMap (enumerate 0 xs)
   \<and> violations h (JArr xs) (Some vt) path =
     concat (map (\<lambda>(index, subValue). violations h subValue (Some vt) (path @ [toString index])) (enumerate 0 xs))
   \<and> toNumber (toString index) = index
   \<and> validate
        [ValidationType (Some [(''a'', \<lparr>config = Some \<lparr>nonNullOptional = Some True\<rparr>, type = Shape 1\<rparr>)]),
         ValidationType None]
        (JArr [JObj [(''a'', JNull)], JObj [(''a'', JStr ''x'')]]) (Some (Shape 0)) [''args''] (ENode False [])
      = ENode False [(''args'', ENode True [(''0'', ENode False [(''a'', ENull)])])]
   \<and> violations
        [ValidationType (Some [(''a'', \<lparr>config = Some \<lparr>nonNullOptional = Some True\<rparr>, type = Shape 1\<rparr>)]),
         ValidationType None]
        (JArr [JObj [(''a'', JNull)], JObj [(''a'', JStr ''x'')]]) (Some (Shape 0)) [''args'']
      = [[''args'', ''0'', ''a'']]"
proof (intro conjI)
  show "validate h (JArr xs) (Some vt) path errorMap =
     foldl (\<lambda>em (index, subValue). validate h subValue (Some vt) (path @ [toString index]) em)
       errorMap (enumerate 0 xs)"
    by (simp add: validate.simps(1) validateElements_enumerate)
  show "violations h (JArr xs) (Some vt) path =
     concat (map (\<lambda>(index, subValue). violations h subValue (Some vt) (path @ [toString index])) (enumerate 0 xs))"
    by (simp add: violations.simps(1) violationsElements_enumerate)
  show "toNumber (toString index) = index" by (rule toNumber_toString)
  show "validate
        [ValidationType (Some [(''a'', \<lparr>config = Some \<lparr>nonNullOptional = Some True\<rparr>, type = Shape 1\<rparr>)]),
         ValidationType None]
        (JArr [JObj [(''a'', JNull)], JObj [(''a'', JStr ''x'')]]) (Some (Shape 0)) [''args''] (ENode False [])
      = ENode False [(''args'', ENode True [(''0'', ENode False [(''a'', ENull)])])]"
    by (simp add: validate.simps(1) fieldAt_def flagged_def toString_0 isIndex_def reIsUint_def isDigit_def toNumber_def digitValue_def)
  show "violations
        [ValidationType (Some [(''a'', \<lparr>config = Some \<lparr>nonNullOptional = Some True\<rparr>, type = Shape 1\<rparr>)]),
         ValidationType None]
        (JArr [JObj [(''a'', JNull)], JObj [(''a'', JStr ''x'')]]) (Some (Shape 0)) [''args'']
      = [[''args'', ''0'', ''a'']]"
    by (simp add: violations.simps(1) fieldAt_def flagged_def toString_0)
qed

section \<open>The walk of an object\<close>


lemma errorAt_validate_origin:
  "errorAt (validate h v vt p (ENode a [])) q = Some ENull \<Longrightarrow> q \<in> set (violations h v vt p)"
proof -
  assume "errorAt (validate h v vt p (ENode a [])) q = Some ENull"
  then have "q \<in> set (violations h v vt p) \<or> errorAt (ENode a []) q = Some ENull"
    unfolding validate_violations(1) by (rule errorAt_foldl_set_origin)
  then show "q \<in> set (violations h v vt p)" using errorAt_empty by blast
qed

lemma violations_object_direct:
  "path @ [key] \<in> set (violations h (JObj kvs) (Some vt) path)
     \<longleftrightarrow> (key, JNull) \<in> set kvs \<and> flagged (fieldAt h vt key)"
  by (simp add: violations.simps(1) violationsKeys_direct)



text \<open>
  C10: a key that is present with a value other than the literal \<^verbatim>\<open>null\<close> yields no violation
  at its path, flagged or not, and a falsy value (\<^verbatim>\<open>undefined\<close>, \<^verbatim>\<open>false\<close>, \<^verbatim>\<open>0\<close>, the empty
  string) is never descended into: validating it records nothing and leaves the error map as
  it was.
\<close>
theorem validate_only_literal_null_violates:
  assumes "distinct (map fst kvs)" and "(key, v) \<in> set kvs" and "v \<noteq> JNull"
  shows "path @ [key] \<notin> set (violations h (JObj kvs) (Some vt) path)
     \<and> errorAt (validate h (JObj kvs) (Some vt) path (ENode False [])) (path @ [key]) \<noteq> Some ENull
     \<and> (\<not> truthy v \<longrightarrow>
          violations h v vt' (path @ [key]) = [] \<and> validate h v vt' (path @ [key]) errorMap = errorMap)
     \<and> \<not> truthy JUndefined \<and> \<not> truthy (JBool False) \<and> \<not> truthy (JNum 0) \<and> \<not> truthy (JStr [])"
proof -
  have "(key, JNull) \<notin> set kvs"
    using assms by (metis eq_key_imp_eq_value)
  then have 1: "path @ [key] \<notin> set (violations h (JObj kvs) (Some vt) path)"
    by (simp add: violations_object_direct)
  then have 2: "errorAt (validate h (JObj kvs) (Some vt) path (ENode False [])) (path @ [key]) \<noteq> Some ENull"
    using errorAt_validate_origin by blast
  have 3: "violations h v vt' (path @ [key]) = [] \<and> validate h v vt' (path @ [key]) errorMap = errorMap"
    if "\<not> truthy v"
    using that by (simp add: validate_violations(1) violations_falsy)
  from 1 2 3 show ?thesis by simp
qed

theorem validate_only_literal_null_violates_witness:
  "distinct (map fst [(''a'', JUndefined), (''b'', JNum 0)]) \<and> (''a'', JUndefined) \<in> set [(''a'', JUndefined), (''b'', JNum 0)]
   \<and> JUndefined \<noteq> JNull
   \<and> [''args'', ''a''] \<notin> set (violations
        [ValidationType (Some [(''a'', \<lparr>config = Some \<lparr>nonNullOptional = Some True\<rparr>, type = Shape 1\<rparr>)]),
         ValidationType None]
        (JObj [(''a'', JUndefined), (''b'', JNum 0)]) (Some (Shape 0)) [''args''])"
  using validate_only_literal_null_violates
    [of "[(''a'', JUndefined), (''b'', JNum 0)]" "''a''" JUndefined "[''args'']"
        "[ValidationType (Some [(''a'', \<lparr>config = Some \<lparr>nonNullOptional = Some True\<rparr>, type = Shape 1\<rparr>)]),
         ValidationType None]" "Shape 0"]
  by simp

section \<open>The report as a JSON document\<close>

lemma typedProps_iff:
  "typedProps v ps \<longleftrightarrow> (\<forall>(k, e)\<in>set ps. \<exists>v'. child v k = Some v' \<and> typedBy v' e)"
  by (induction ps) (auto split: option.splits)














section \<open>The resolver\<close>










section \<open>Holes in the report of a list\<close>













section \<open>The cache and the heap during compilation\<close>

lemma shapes_newObject: "(x, y) = newObject st \<Longrightarrow> x = length (shapes st) \<and> shapes y = shapes st @ [ValidationType None] \<and> validationTypeCache y = validationTypeCache st"
  by (simp add: newObject_def)

lemma shapes_cachePut [simp]: "shapes (cachePut st n a) = shapes st"
  by (simp add: cachePut_def)

lemma map_of_cachePut: "map_of (validationTypeCache (cachePut st n a)) m = (if m = n then Some a else map_of (validationTypeCache st) m)"
  by (simp add: cachePut_def map_of_update)

lemma shapes_setFields: "shapes (setFields st a fs) = (shapes st)[a := ValidationType (Some fs)]"
  by (simp add: setFields_def)

lemma length_shapes_putField [simp]: "length (shapes (putField st a key f)) = length (shapes st)"
  by (simp add: putField_def setFields_def split: option.splits)

lemma nth_shapes_putField: "b \<noteq> a \<Longrightarrow> shapes (putField st a key f) ! b = shapes st ! b"
  by (simp add: putField_def setFields_def split: option.splits)

lemma not_inCache_None: "\<not> inCache st n \<Longrightarrow> map_of (validationTypeCache st) n = None"
  by (simp add: inCache_def)

lemma cache_fixed:
  "inCache st m \<Longrightarrow>
     map_of (validationTypeCache (snd (getValidationType sch st ty))) m = map_of (validationTypeCache st) m"
  "inCache st m \<Longrightarrow>
     map_of (validationTypeCache (snd (mapper sch st ty a))) m = map_of (validationTypeCache st) m"
  "inCache st m \<Longrightarrow>
     map_of (validationTypeCache (forEachKey sch st a es)) m = map_of (validationTypeCache st) m"
proof (induction sch st ty and sch st ty a and sch st a es rule: getValidationType_mapper_forEachKey.induct)
  case (1 sch st ty)
  show ?case
  proof (cases ty)
    case (NamedType n)
    show ?thesis
    proof (cases "inCache st n")
      case True
      with NamedType 1(4) show ?thesis by (simp add: getValidationType.simps)
    next
      case False
      obtain x y where xy: "(x, y) = newObject st" by (cases "newObject st") auto
      from False 1(4) have mn: "m \<noteq> n" by auto
      with 1(4) shapes_newObject[OF xy] have "inCache (cachePut y n x) m"
        by (simp add: inCache_def map_of_cachePut)
      from 1(1)[OF NamedType False xy this] mn shapes_newObject[OF xy] show ?thesis
        using NamedType False xy[symmetric] by (simp add: getValidationType.simps map_of_cachePut)
    qed
  next
    case (ListType t)
    obtain x y where xy: "(x, y) = newObject st" by (cases "newObject st") auto
    from 1(4) shapes_newObject[OF xy] have "inCache y m" by (simp add: inCache_def)
    from 1(2)[OF ListType xy this] shapes_newObject[OF xy] show ?thesis
      using ListType xy[symmetric] by (simp add: getValidationType.simps)
  next
    case (NonNullType t)
    obtain x y where xy: "(x, y) = newObject st" by (cases "newObject st") auto
    from 1(4) shapes_newObject[OF xy] have "inCache y m" by (simp add: inCache_def)
    from 1(3)[OF NonNullType xy this] shapes_newObject[OF xy] show ?thesis
      using NonNullType xy[symmetric] by (simp add: getValidationType.simps)
  qed
next
  case (2 sch st ty validationType)
  show ?case
  proof (cases "isListType ty \<or> isNonNullType ty")
    case True
    with 2(1)[OF True 2(3)] show ?thesis by (simp add: mapper.simps)
  next
    case False
    show ?thesis
    proof (cases "getFields sch ty")
      case None
      with False 2(3) show ?thesis by (simp add: mapper.simps)
    next
      case (Some fm)
      show ?thesis
      proof (cases "0 < length (filter (\<lambda>(key, field). extensionsNonNullOptional field = Some True) fm)")
        case True
        from 2(3) have "inCache (setFields st validationType []) m" by (simp add: inCache_def)
        from 2(2)[OF False Some refl True this] False Some True
        show ?thesis by (simp add: mapper.simps Let_def)
      next
        case F: False
        with False Some 2(3) show ?thesis by (simp add: mapper.simps Let_def)
      qed
    qed
  qed
next
  case (3 sch st fieldsOwner)
  then show ?case by simp
next
  case (4 sch st fieldsOwner key subInputField rest)
  obtain x y where xy: "(x, y) = getValidationType sch st (inputType subInputField)"
    by (cases "getValidationType sch st (inputType subInputField)") auto
  from 4(1)[OF 4(3)] xy have y: "map_of (validationTypeCache y) m = map_of (validationTypeCache st) m"
    by (metis snd_conv)
  with 4(3) have "inCache (putField y fieldsOwner key
        \<lparr>config = Some \<lparr>nonNullOptional = extensionsNonNullOptional subInputField\<rparr>, type = x\<rparr>) m"
    by (simp add: inCache_def)
  from 4(2)[OF xy this] y show ?case using xy[symmetric] by simp
qed


lemma cache_stable:
  "map_of (validationTypeCache st) m = Some b \<Longrightarrow>
     map_of (validationTypeCache (snd (getValidationType sch st ty))) m = Some b"
  "map_of (validationTypeCache st) m = Some b \<Longrightarrow>
     map_of (validationTypeCache (snd (mapper sch st ty a))) m = Some b"
  "map_of (validationTypeCache st) m = Some b \<Longrightarrow>
     map_of (validationTypeCache (forEachKey sch st a es)) m = Some b"
  using cache_fixed[of st m] by (simp_all add: inCache_def)

lemma heap_frame:
  "length (shapes st) \<le> length (shapes (snd (getValidationType sch st ty)))
     \<and> (\<forall>b<length (shapes st). shapes (snd (getValidationType sch st ty)) ! b = shapes st ! b)"
  "length (shapes st) \<le> length (shapes (snd (mapper sch st ty a)))
     \<and> (\<forall>b<length (shapes st). b \<noteq> a \<longrightarrow> shapes (snd (mapper sch st ty a)) ! b = shapes st ! b)"
  "length (shapes st) \<le> length (shapes (forEachKey sch st a es))
     \<and> (\<forall>b<length (shapes st). b \<noteq> a \<longrightarrow> shapes (forEachKey sch st a es) ! b = shapes st ! b)"
proof (induction sch st ty and sch st ty a and sch st a es rule: getValidationType_mapper_forEachKey.induct)
  case (1 sch st ty)
  obtain x y where xy: "(x, y) = newObject st" by (cases "newObject st") auto
  note n = shapes_newObject[OF xy]
  show ?case
  proof (cases ty)
    case (NamedType n)
    show ?thesis
    proof (cases "inCache st n")
      case True
      with NamedType show ?thesis by (simp add: getValidationType.simps)
    next
      case False
      from 1(1)[OF NamedType False xy] n
      have "length (shapes st) \<le> length (shapes (snd (mapper sch (cachePut y n x) ty x)))
          \<and> (\<forall>b<length (shapes st). shapes (snd (mapper sch (cachePut y n x) ty x)) ! b = shapes st ! b)"
        by (auto simp: nth_append)
      then show ?thesis using NamedType False xy[symmetric] by (simp add: getValidationType.simps)
    qed
  next
    case (ListType t)
    from 1(2)[OF ListType xy] n
    have "length (shapes st) \<le> length (shapes (snd (mapper sch y ty x)))
          \<and> (\<forall>b<length (shapes st). shapes (snd (mapper sch y ty x)) ! b = shapes st ! b)"
      by (auto simp: nth_append)
    then show ?thesis using ListType xy[symmetric] by (simp add: getValidationType.simps)
  next
    case (NonNullType t)
    from 1(3)[OF NonNullType xy] n
    have "length (shapes st) \<le> length (shapes (snd (mapper sch y ty x)))
          \<and> (\<forall>b<length (shapes st). shapes (snd (mapper sch y ty x)) ! b = shapes st ! b)"
      by (auto simp: nth_append)
    then show ?thesis using NonNullType xy[symmetric] by (simp add: getValidationType.simps)
  qed
next
  case (2 sch st ty validationType)
  show ?case
  proof (cases "isListType ty \<or> isNonNullType ty")
    case True
    with 2(1)[OF True] show ?thesis by (simp add: mapper.simps)
  next
    case False
    show ?thesis
    proof (cases "getFields sch ty")
      case None
      with False show ?thesis by (simp add: mapper.simps)
    next
      case (Some fm)
      show ?thesis
      proof (cases "0 < length (filter (\<lambda>(key, field). extensionsNonNullOptional field = Some True) fm)")
        case True
        from 2(2)[OF False Some refl True] False Some True
        show ?thesis by (simp add: mapper.simps Let_def shapes_setFields)
      next
        case F: False
        with False Some show ?thesis by (simp add: mapper.simps Let_def)
      qed
    qed
  qed
next
  case (3 sch st fieldsOwner)
  then show ?case by simp
next
  case (4 sch st fieldsOwner key subInputField rest)
  obtain x y where xy: "(x, y) = getValidationType sch st (inputType subInputField)"
    by (cases "getValidationType sch st (inputType subInputField)") auto
  from 4(1) xy have a: "length (shapes st) \<le> length (shapes y)" "\<forall>b<length (shapes st). shapes y ! b = shapes st ! b"
    by (metis snd_conv)+
  let ?st2 = "putField y fieldsOwner key
        \<lparr>config = Some \<lparr>nonNullOptional = extensionsNonNullOptional subInputField\<rparr>, type = x\<rparr>"
  from 4(2)[OF xy] have b: "length (shapes ?st2) \<le> length (shapes (forEachKey sch ?st2 fieldsOwner rest))"
    "\<forall>b<length (shapes ?st2). b \<noteq> fieldsOwner \<longrightarrow> shapes (forEachKey sch ?st2 fieldsOwner rest) ! b = shapes ?st2 ! b"
    by simp_all
  from a b show ?case using xy[symmetric] by (auto simp: nth_shapes_putField)
qed

lemma mapper_named_fst: "fst (mapper sch st (NamedType n) a) = Shape a"
  by (simp add: mapper.simps Let_def split: option.splits)

lemma getValidationType_hit:
  "inCache st n \<Longrightarrow> getValidationType sch st (NamedType n) = (cacheGet st n, st)"
  by (simp add: getValidationType.simps)

lemma getValidationType_miss:
  "\<not> inCache st n \<Longrightarrow>
   getValidationType sch st (NamedType n)
     = mapper sch (cachePut (snd (newObject st)) n (length (shapes st))) (NamedType n) (length (shapes st))"
  by (simp add: getValidationType.simps newObject_def)

lemma getValidationType_wrapper:
  "isListType ty \<or> isNonNullType ty \<Longrightarrow>
   getValidationType sch st ty = getValidationType sch (snd (newObject st)) (getNamedType ty)"
  by (cases ty) (simp_all add: getValidationType.simps mapper.simps newObject_def)

lemma inCache_newObject [simp]: "inCache (snd (newObject st)) n = inCache st n"
  by (simp add: inCache_def)

lemma cacheGet_newObject [simp]: "cacheGet (snd (newObject st)) n = cacheGet st n"
  by (simp add: cacheGet_def)

lemma getValidationType_named_result:
  assumes "getValidationType sch st (NamedType n) = (r, st')"
  shows "inCache st' n \<and> cacheGet st' n = r"
proof (cases "inCache st n")
  case True
  with assms show ?thesis by (auto simp: getValidationType_hit)
next
  case False
  let ?a = "length (shapes st)"
  let ?st2 = "cachePut (snd (newObject st)) n ?a"
  from assms False have m: "mapper sch ?st2 (NamedType n) ?a = (r, st')"
    by (simp add: getValidationType_miss)
  then have r: "r = Shape ?a" using mapper_named_fst[of sch ?st2 n ?a] by simp
  have "map_of (validationTypeCache ?st2) n = Some ?a" by (simp add: map_of_cachePut)
  from cache_stable(2)[OF this, of sch "NamedType n" ?a] m
  have "map_of (validationTypeCache st') n = Some ?a" by simp
  with r show ?thesis by (simp add: inCache_def cacheGet_def)
qed

lemma getValidationType_result:
  assumes "getNamedType ty = NamedType n" and "getValidationType sch st ty = (r, st')"
  shows "inCache st' n \<and> cacheGet st' n = r"
proof (cases "isListType ty \<or> isNonNullType ty")
  case True
  from getValidationType_wrapper[OF True, of sch st] assms
  have "getValidationType sch (snd (newObject st)) (NamedType n) = (r, st')" by simp
  then show ?thesis by (rule getValidationType_named_result)
next
  case False
  then have "ty = NamedType n" using assms(1) by (cases ty) auto
  with assms(2) show ?thesis using getValidationType_named_result by simp
qed

lemma getValidationType_cached:
  assumes "inCache st n" and "getNamedType ty = NamedType n"
  shows "fst (getValidationType sch st ty) = cacheGet st n
     \<and> validationTypeCache (snd (getValidationType sch st ty)) = validationTypeCache st"
proof (cases "isListType ty \<or> isNonNullType ty")
  case True
  from getValidationType_wrapper[OF True, of sch st] assms
  show ?thesis by (simp add: getValidationType_hit)
next
  case False
  then have "ty = NamedType n" using assms(2) by (cases ty) auto
  with assms(1) show ?thesis by (simp add: getValidationType_hit)
qed


section \<open>Compilation returns, and returns the cached shape\<close>

lemmas compile_eval = getValidationType.simps mapper.simps newObject_def cachePut_def setFields_def putField_def
  inCache_def cacheGet_def objectPrototypeKeys_def emptyCompiler_def Let_def

lemma self_referential_example: "getValidationType
     [(''Node'', InputObjectType
        [(''child'', \<lparr>inputType = ListType (NonNullType (NamedType ''Node'')), extensionsNonNullOptional = Some True\<rparr>)])]
     emptyCompiler (NamedType ''Node'')
   = (Shape 0,
      Compiler
        [ValidationType (Some [(''child'', \<lparr>config = Some \<lparr>nonNullOptional = Some True\<rparr>, type = Shape 0\<rparr>)]),
         ValidationType None]
        [(''Node'', 0)])"
  by (simp add: compile_eval)



text \<open>
  C4: the recursion of \<open>getValidationType\<close> is well founded on every schema, state and type, so
  every compilation returns, self-referential types included. On a cache miss the new shape
  object is stored in the cache before \<open>mapper\<close> populates it, and in that state every type
  whose named type is the one being compiled yields the stored object and adds nothing to the
  cache: the recursive lookup hits. A type whose field is a list of itself compiles to a
  shape whose field refers back to that shape.
\<close>
theorem getValidationType_terminates:
  "getValidationType_mapper_forEachKey_dom (Inl (sch, st, ty))
   \<and> (\<not> inCache st n \<longrightarrow>
        getValidationType sch st (NamedType n)
          = mapper sch (cachePut (snd (newObject st)) n (length (shapes st))) (NamedType n) (length (shapes st))
        \<and> (\<forall>ty'. getNamedType ty' = NamedType n \<longrightarrow>
              fst (getValidationType sch (cachePut (snd (newObject st)) n (length (shapes st))) ty')
                = Shape (length (shapes st))
              \<and> validationTypeCache
                   (snd (getValidationType sch (cachePut (snd (newObject st)) n (length (shapes st))) ty'))
                = validationTypeCache (cachePut (snd (newObject st)) n (length (shapes st)))))
   \<and> getValidationType
        [(''Node'', InputObjectType
          [(''child'', \<lparr>inputType = ListType (NonNullType (NamedType ''Node'')), extensionsNonNullOptional = Some True\<rparr>)])]
        emptyCompiler (NamedType ''Node'')
      = (Shape 0,
         Compiler
           [ValidationType (Some [(''child'', \<lparr>config = Some \<lparr>nonNullOptional = Some True\<rparr>, type = Shape 0\<rparr>)]),
            ValidationType None]
           [(''Node'', 0)])"
proof (intro conjI impI allI)
  show "getValidationType_mapper_forEachKey_dom (Inl (sch, st, ty))"
    using compile_total by blast
  show "getValidationType sch st (NamedType n)
          = mapper sch (cachePut (snd (newObject st)) n (length (shapes st))) (NamedType n) (length (shapes st))"
    if "\<not> inCache st n"
    using that by (rule getValidationType_miss)
  let ?st2 = "cachePut (snd (newObject st)) n (length (shapes st))"
  have c: "inCache ?st2 n" "cacheGet ?st2 n = Shape (length (shapes st))"
    by (simp_all add: inCache_def cacheGet_def map_of_cachePut)
  show "fst (getValidationType sch ?st2 ty') = Shape (length (shapes st))"
    if "getNamedType ty' = NamedType n" for ty'
    using getValidationType_cached[OF c(1) that, of sch] c(2) by simp
  show "validationTypeCache (snd (getValidationType sch ?st2 ty')) = validationTypeCache ?st2"
    if "getNamedType ty' = NamedType n" for ty'
    using getValidationType_cached[OF c(1) that, of sch] by simp
  show "getValidationType
        [(''Node'', InputObjectType
          [(''child'', \<lparr>inputType = ListType (NonNullType (NamedType ''Node'')), extensionsNonNullOptional = Some True\<rparr>)])]
        emptyCompiler (NamedType ''Node'')
      = (Shape 0,
         Compiler
           [ValidationType (Some [(''child'', \<lparr>config = Some \<lparr>nonNullOptional = Some True\<rparr>, type = Shape 0\<rparr>)]),
            ValidationType None]
           [(''Node'', 0)])"
    by (simp add: compile_eval)
qed

theorem getValidationType_terminates_witness:
  "\<not> inCache emptyCompiler ''Node''
   \<and> getValidationType_mapper_forEachKey_dom
        (Inl ([(''Node'', InputObjectType
                [(''child'', \<lparr>inputType = ListType (NonNullType (NamedType ''Node'')), extensionsNonNullOptional = Some True\<rparr>)])],
              emptyCompiler, NamedType ''Node''))
   \<and> getNamedType (ListType (NonNullType (NamedType ''Node''))) = NamedType ''Node''
   \<and> fst (getValidationType
        [(''Node'', InputObjectType
          [(''child'', \<lparr>inputType = ListType (NonNullType (NamedType ''Node'')), extensionsNonNullOptional = Some True\<rparr>)])]
        (cachePut (snd (newObject emptyCompiler)) ''Node'' (length (shapes emptyCompiler)))
        (ListType (NonNullType (NamedType ''Node'')))) = Shape 0"
  using getValidationType_terminates
    [of "[(''Node'', InputObjectType
          [(''child'', \<lparr>inputType = ListType (NonNullType (NamedType ''Node'')), extensionsNonNullOptional = Some True\<rparr>)])]"
        emptyCompiler "NamedType ''Node''" "''Node''"]
  by (simp add: inCache_def objectPrototypeKeys_def emptyCompiler_def)

section \<open>Operations without constrained arguments\<close>

lemma consistent_empty: "consistent sch emptyCompiler"
  by (simp add: consistent_def emptyCompiler_def)

lemma consistent_newObject: "consistent sch st \<Longrightarrow> consistent sch (snd (newObject st))"
  unfolding consistent_def newObject_def
  by (auto simp: nth_append less_Suc_eq)

lemma consistent_cachePut_fresh:
  assumes "consistent sch st" and "map_of (validationTypeCache st) n = None"
  shows "consistent sch (cachePut (snd (newObject st)) n (length (shapes st)))"
proof -
  have lt: "a < length (shapes st)" if "map_of (validationTypeCache st) m = Some a" for m a
    using assms(1) that by (auto simp: consistent_def)
  show ?thesis
    unfolding consistent_def
  proof (intro conjI allI impI)
    fix m a assume "map_of (validationTypeCache (cachePut (snd (newObject st)) n (length (shapes st)))) m = Some a"
    then have c: "(m = n \<and> a = length (shapes st)) \<or> (m \<noteq> n \<and> map_of (validationTypeCache st) m = Some a)"
      by (auto simp: map_of_cachePut newObject_def split: if_splits)
    then show "a < length (shapes (cachePut (snd (newObject st)) n (length (shapes st))))"
      using lt by (auto simp: newObject_def less_Suc_eq)
    show "hasFlagged sch m" if "fieldsOf (shapes (cachePut (snd (newObject st)) n (length (shapes st)))) (Shape a) \<noteq> None"
      using c that assms(1) lt by (auto simp: newObject_def nth_append consistent_def split: if_splits)
  next
    fix m m' a
    assume "map_of (validationTypeCache (cachePut (snd (newObject st)) n (length (shapes st)))) m = Some a
      \<and> map_of (validationTypeCache (cachePut (snd (newObject st)) n (length (shapes st)))) m' = Some a"
    then show "m = m'"
      using assms(1) lt by (auto simp: map_of_cachePut newObject_def consistent_def split: if_splits)
  qed
qed

lemma consistent_fill:
  assumes "consistent sch st" and "map_of (validationTypeCache st) n = Some a" and "hasFlagged sch n"
  shows "consistent sch (setFields st a fs)"
proof -
  have inj: "m = n" if "map_of (validationTypeCache st) m = Some a" for m
    using assms(1,2) that unfolding consistent_def by blast
  have old: "b < length (shapes st) \<and> (fieldsOf (shapes st) (Shape b) \<noteq> None \<longrightarrow> hasFlagged sch m)"
    if "map_of (validationTypeCache st) m = Some b" for m b
    using assms(1) that unfolding consistent_def by blast
  show ?thesis
    unfolding consistent_def
  proof (intro conjI allI impI)
    fix m b assume mb: "map_of (validationTypeCache (setFields st a fs)) m = Some b"
    then have mb': "map_of (validationTypeCache st) m = Some b" by simp
    from old[OF mb'] show "b < length (shapes (setFields st a fs))" by (simp add: shapes_setFields)
    show "hasFlagged sch m" if "fieldsOf (shapes (setFields st a fs)) (Shape b) \<noteq> None"
    proof (cases "b = a")
      case True
      with inj mb' assms(3) show ?thesis by simp
    next
      case False
      with that old[OF mb'] show ?thesis by (simp add: shapes_setFields)
    qed
  next
    fix m m' b
    assume "map_of (validationTypeCache (setFields st a fs)) m = Some b
      \<and> map_of (validationTypeCache (setFields st a fs)) m' = Some b"
    then have "map_of (validationTypeCache st) m = Some b \<and> map_of (validationTypeCache st) m' = Some b"
      by simp
    then show "m = m'" using assms(1) unfolding consistent_def by blast
  qed
qed

lemma consistent_putField:
  assumes "consistent sch st" and "map_of (validationTypeCache st) n = Some a" and "hasFlagged sch n"
  shows "consistent sch (putField st a key f)"
  using assms consistent_fill by (simp add: putField_def split: option.splits)

lemma consistent_preserved:
  "consistent sch st \<Longrightarrow> consistent sch (snd (getValidationType sch st ty))"
  "consistent sch st \<Longrightarrow> (\<not> (isListType ty \<or> isNonNullType ty) \<longrightarrow> (\<exists>n. ty = NamedType n \<and> map_of (validationTypeCache st) n = Some a))
     \<Longrightarrow> consistent sch (snd (mapper sch st ty a))"
  "consistent sch st \<Longrightarrow> \<exists>n. map_of (validationTypeCache st) n = Some a \<and> hasFlagged sch n
     \<Longrightarrow> consistent sch (forEachKey sch st a es)"
proof (induction sch st ty and sch st ty a and sch st a es rule: getValidationType_mapper_forEachKey.induct)
  case (1 sch st ty)
  obtain x y where xy: "(x, y) = newObject st" by (cases "newObject st") auto
  then have y: "y = snd (newObject st)" "x = length (shapes st)" by (simp_all add: newObject_def)
  show ?case
  proof (cases ty)
    case (NamedType n)
    show ?thesis
    proof (cases "inCache st n")
      case True
      with NamedType 1(4) show ?thesis by (simp add: getValidationType.simps)
    next
      case False
      from consistent_cachePut_fresh[OF 1(4) not_inCache_None[OF False]]
      have c: "consistent sch (cachePut y n x)" by (simp add: y)
      have "map_of (validationTypeCache (cachePut y n x)) n = Some x" by (simp add: map_of_cachePut)
      with 1(1)[OF NamedType False xy c] NamedType
      have "consistent sch (snd (mapper sch (cachePut y n x) ty x))" by simp
      then show ?thesis using NamedType False xy[symmetric] by (simp add: getValidationType.simps)
    qed
  next
    case (ListType t)
    from consistent_newObject[OF 1(4)] have c: "consistent sch y" by (simp add: y)
    from 1(2)[OF ListType xy c] ListType show ?thesis
      using xy[symmetric] by (simp add: getValidationType.simps)
  next
    case (NonNullType t)
    from consistent_newObject[OF 1(4)] have c: "consistent sch y" by (simp add: y)
    from 1(3)[OF NonNullType xy c] NonNullType show ?thesis
      using xy[symmetric] by (simp add: getValidationType.simps)
  qed
next
  case (2 sch st ty validationType)
  show ?case
  proof (cases "isListType ty \<or> isNonNullType ty")
    case True
    with 2(1)[OF True 2(3)] show ?thesis by (simp add: mapper.simps)
  next
    case False
    with 2(4) obtain n where n: "ty = NamedType n" "map_of (validationTypeCache st) n = Some validationType"
      by blast
    show ?thesis
    proof (cases "getFields sch ty")
      case None
      with False 2(3) show ?thesis by (simp add: mapper.simps)
    next
      case (Some fm)
      show ?thesis
      proof (cases "0 < length (filter (\<lambda>(key, field). extensionsNonNullOptional field = Some True) fm)")
        case True
        then have hf: "hasFlagged sch n" using Some n(1) by (simp add: hasFlagged_def)
        from consistent_fill[OF 2(3) n(2) hf] have c: "consistent sch (setFields st validationType [])" .
        have "\<exists>n. map_of (validationTypeCache (setFields st validationType [])) n = Some validationType \<and> hasFlagged sch n"
          using n(2) hf by auto
        from 2(2)[OF False Some refl True c this] False Some True
        show ?thesis by (simp add: mapper.simps Let_def)
      next
        case F: False
        with False Some 2(3) show ?thesis by (simp add: mapper.simps Let_def)
      qed
    qed
  qed
next
  case (3 sch st fieldsOwner)
  then show ?case by simp
next
  case (4 sch st fieldsOwner key subInputField rest)
  obtain x y where xy: "(x, y) = getValidationType sch st (inputType subInputField)"
    by (cases "getValidationType sch st (inputType subInputField)") auto
  from 4(4) obtain n where n: "map_of (validationTypeCache st) n = Some fieldsOwner" "hasFlagged sch n" by blast
  from 4(1)[OF 4(3)] xy have cy: "consistent sch y" by (metis snd_conv)
  from cache_stable(1)[OF n(1), of sch "inputType subInputField"] xy
  have ny: "map_of (validationTypeCache y) n = Some fieldsOwner" by (metis snd_conv)
  let ?st2 = "putField y fieldsOwner key
        \<lparr>config = Some \<lparr>nonNullOptional = extensionsNonNullOptional subInputField\<rparr>, type = x\<rparr>"
  from consistent_putField[OF cy ny n(2)] have c2: "consistent sch ?st2" .
  have "\<exists>n. map_of (validationTypeCache ?st2) n = Some fieldsOwner \<and> hasFlagged sch n"
    using ny n(2) by auto
  from 4(2)[OF xy c2 this] show ?case using xy[symmetric] by simp
qed

lemma unconstrained_shape_empty:
  assumes "consistent sch st" and "getNamedType ty = NamedType n" and "\<not> hasFlagged sch n"
  shows "fieldsOf (shapes (snd (getValidationType sch st ty))) (fst (getValidationType sch st ty)) = None"
proof -
  let ?r = "fst (getValidationType sch st ty)" and ?st' = "snd (getValidationType sch st ty)"
  from getValidationType_result[OF assms(2), of sch st ?r ?st'] have r: "cacheGet ?st' n = ?r" by simp
  from consistent_preserved(1)[OF assms(1), of ty] have c: "consistent sch ?st'" .
  show ?thesis
  proof (cases "map_of (validationTypeCache ?st') n")
    case None
    with r have "?r = Inherited n" by (simp add: cacheGet_def)
    then show ?thesis by simp
  next
    case (Some a)
    with r have ra: "?r = Shape a" by (simp add: cacheGet_def)
    from c Some assms(3) have "fieldsOf (shapes ?st') (Shape a) = None"
      unfolding consistent_def by blast
    with ra show ?thesis by simp
  qed
qed

lemma forEachArg_unconstrained:
  assumes "consistent sch st" and "\<forall>(key, ty)\<in>set args. \<not> constrainedBeneath sch ty"
  shows "fst (forEachArg sch st fs args) = fs \<and> consistent sch (snd (forEachArg sch st fs args))"
  using assms
proof (induction args arbitrary: st)
  case Nil
  then show ?case by simp
next
  case (Cons arg args)
  obtain key ty where arg: "arg = (key, ty)" by (cases arg)
  obtain n where n: "getNamedType ty = NamedType n" using getNamedType_named by blast
  from Cons(3) arg have "\<not> constrainedBeneath sch ty" by simp
  with n have nf: "\<not> hasFlagged sch n" using constrainedBeneath.here by blast
  obtain r st1 where g: "getValidationType sch st ty = (r, st1)" by (cases "getValidationType sch st ty")
  from unconstrained_shape_empty[OF Cons(2) n nf] g have e: "fieldsOf (shapes st1) r = None" by simp
  from consistent_preserved(1)[OF Cons(2), of ty] g have c: "consistent sch st1" by simp
  from Cons(3) have "\<forall>(key, ty)\<in>set args. \<not> constrainedBeneath sch ty" by simp
  from Cons(1)[OF c this] show ?case using arg g e by simp
qed

text \<open>
  C6: in a state consistent with the schema, when no argument of an operation has a
  constrained field anywhere beneath its type, \<open>createArgsValidationType\<close> returns
  \<^verbatim>\<open>undefined\<close> and \<open>onCreateFieldResolver\<close> installs no resolver: nothing validates the
  operation's arguments, no error map is made for them and no error can be thrown. The heap
  is the one the compilation of the argument types left, and the state stays consistent.
\<close>
theorem unconstrained_arguments_install_no_resolver:
  assumes "consistent sch st" and "\<forall>(key, ty)\<in>set args. \<not> constrainedBeneath sch ty"
  shows "fst (createArgsValidationType sch st (Some args)) = None
     \<and> fst (onCreateFieldResolver sch st (Some args)) = None
     \<and> shapes (snd (onCreateFieldResolver sch st (Some args))) = shapes (snd (forEachArg sch st [] args))
     \<and> consistent sch (snd (onCreateFieldResolver sch st (Some args)))"
proof -
  obtain fs st1 where f: "forEachArg sch st [] args = (fs, st1)" by (cases "forEachArg sch st [] args")
  from forEachArg_unconstrained[OF assms, of "[]"] f have "fs = []" "consistent sch st1" by simp_all
  with f show ?thesis
    by (simp add: createArgsValidationType_def onCreateFieldResolver_def)
qed

lemma consistent_forEachArg:
  "consistent sch st \<Longrightarrow> consistent sch (snd (forEachArg sch st fs args))"
proof (induction args arbitrary: st fs)
  case Nil
  then show ?case by simp
next
  case (Cons arg args)
  obtain key ty where arg: "arg = (key, ty)" by (cases arg)
  obtain r st1 where g: "getValidationType sch st ty = (r, st1)" by (cases "getValidationType sch st ty")
  from consistent_preserved(1)[OF Cons(2), of ty] g have c: "consistent sch st1" by simp
  from Cons(1)[OF c] show ?case using arg g by simp
qed

lemma consistent_setFields_uncached:
  assumes "consistent sch st"
  shows "consistent sch (setFields (snd (newObject st)) (length (shapes st)) fs)"
proof -
  have lt: "b < length (shapes st) \<and> (fieldsOf (shapes st) (Shape b) \<noteq> None \<longrightarrow> hasFlagged sch m)"
    if "map_of (validationTypeCache st) m = Some b" for m b
    using assms that unfolding consistent_def by blast
  show ?thesis
    unfolding consistent_def
  proof (intro conjI allI impI)
    fix m b
    assume "map_of (validationTypeCache (setFields (snd (newObject st)) (length (shapes st)) fs)) m = Some b"
    then have mb: "map_of (validationTypeCache st) m = Some b" by simp
    from lt[OF mb] show "b < length (shapes (setFields (snd (newObject st)) (length (shapes st)) fs))"
      by (simp add: shapes_setFields newObject_def)
    show "hasFlagged sch m"
      if "fieldsOf (shapes (setFields (snd (newObject st)) (length (shapes st)) fs)) (Shape b) \<noteq> None"
      using that lt[OF mb] by (simp add: shapes_setFields newObject_def nth_append)
  next
    fix m m' b
    assume "map_of (validationTypeCache (setFields (snd (newObject st)) (length (shapes st)) fs)) m = Some b
      \<and> map_of (validationTypeCache (setFields (snd (newObject st)) (length (shapes st)) fs)) m' = Some b"
    then have "map_of (validationTypeCache st) m = Some b \<and> map_of (validationTypeCache st) m' = Some b"
      by simp
    then show "m = m'" using assms unfolding consistent_def by blast
  qed
qed

lemma consistent_createArgsValidationType:
  assumes "consistent sch st"
  shows "consistent sch (snd (createArgsValidationType sch st argMap))"
proof (cases argMap)
  case None
  with assms show ?thesis by (simp add: createArgsValidationType_def)
next
  case (Some args)
  obtain fs st1 where f: "forEachArg sch st [] args = (fs, st1)" by (cases "forEachArg sch st [] args")
  from consistent_forEachArg[OF assms, of "[]" args] f have c: "consistent sch st1" by simp
  from consistent_setFields_uncached[OF c, of fs] c show ?thesis
    using Some f by (simp add: createArgsValidationType_def newObject_def)
qed

theorem unconstrained_arguments_install_no_resolver_witness:
  "consistent [(''Plain'', InputObjectType [(''s'', \<lparr>inputType = NamedType ''String'', extensionsNonNullOptional = None\<rparr>)])]
     emptyCompiler
   \<and> \<not> constrainedBeneath
        [(''Plain'', InputObjectType [(''s'', \<lparr>inputType = NamedType ''String'', extensionsNonNullOptional = None\<rparr>)])]
        (ListType (NamedType ''Plain''))
   \<and> fst (createArgsValidationType
        [(''Plain'', InputObjectType [(''s'', \<lparr>inputType = NamedType ''String'', extensionsNonNullOptional = None\<rparr>)])]
        emptyCompiler (Some [(''data'', ListType (NamedType ''Plain''))])) = None"
proof -
  let ?sch = "[(''Plain'', InputObjectType [(''s'', \<lparr>inputType = NamedType ''String'', extensionsNonNullOptional = None\<rparr>)])]"
  have s: "\<not> constrainedBeneath ?sch (NamedType ''String'')"
  proof
    assume "constrainedBeneath ?sch (NamedType ''String'')"
    then show False
    proof (cases rule: constrainedBeneath.cases)
      case (here n)
      then show ?thesis by (auto simp: hasFlagged_def)
    next
      case (below n fs key f)
      then show ?thesis by auto
    qed
  qed
  have p: "\<not> constrainedBeneath ?sch (ListType (NamedType ''Plain''))"
  proof
    assume "constrainedBeneath ?sch (ListType (NamedType ''Plain''))"
    then show False
    proof (cases rule: constrainedBeneath.cases)
      case (here n)
      then show ?thesis by (simp add: hasFlagged_def)
    next
      case (below n fs key f)
      then have "f = \<lparr>inputType = NamedType ''String'', extensionsNonNullOptional = None\<rparr>" by auto
      with below(4) s show ?thesis by simp
    qed
  qed
  have 1: "consistent ?sch emptyCompiler" by (rule consistent_empty)
  have 2: "\<forall>(key, ty)\<in>set [(''data'', ListType (NamedType ''Plain''))]. \<not> constrainedBeneath ?sch ty"
    using p by simp
  from unconstrained_arguments_install_no_resolver[OF 1 2] 1 p show ?thesis by blast
qed

section \<open>The fields of a compiled shape\<close>

lemma fieldsOf_putField:
  "a < length (shapes st) \<Longrightarrow> fieldsOf (shapes st) (Shape a) = Some fs0 \<Longrightarrow>
   fieldsOf (shapes (putField st a key f)) (Shape a) = Some (AList.update key f fs0)"
  by (simp add: putField_def setFields_def)

lemma cacheGet_forEachKey:
  "inCache st m \<Longrightarrow> cacheGet (forEachKey sch st a es) m = cacheGet st m"
  using cache_fixed(3)[of st m sch a es] by (simp add: cacheGet_def)

lemma forEachKey_fields:
  assumes "a < length (shapes st)" and "fieldsOf (shapes st) (Shape a) = Some fs0"
  shows "\<exists>fs'. fieldsOf (shapes (forEachKey sch st a es)) (Shape a) = Some fs'
      \<and> fst ` set fs' = fst ` set fs0 \<union> fst ` set es
      \<and> (\<forall>key fld. map_of fs' key = Some fld \<longrightarrow>
            (key \<notin> fst ` set es \<and> map_of fs0 key = Some fld)
          \<or> (\<exists>f m. (key, f) \<in> set es \<and> getNamedType (inputType f) = NamedType m
                \<and> fld = \<lparr>config = Some \<lparr>nonNullOptional = extensionsNonNullOptional f\<rparr>,
                          type = cacheGet (forEachKey sch st a es) m\<rparr>))"
  using assms
proof (induction es arbitrary: st fs0)
  case Nil
  then show ?case by simp
next
  case (Cons e rest)
  obtain key0 f0 where e: "e = (key0, f0)" by (cases e)
  obtain x y where g: "getValidationType sch st (inputType f0) = (x, y)"
    by (cases "getValidationType sch st (inputType f0)")
  obtain m0 where m0: "getNamedType (inputType f0) = NamedType m0" using getNamedType_named by blast
  let ?fld0 = "\<lparr>config = Some \<lparr>nonNullOptional = extensionsNonNullOptional f0\<rparr>, type = x\<rparr>"
  let ?st2 = "putField y a key0 ?fld0"
  let ?fs1 = "AList.update key0 ?fld0 fs0"
  let ?final = "forEachKey sch ?st2 a rest"
  have final: "forEachKey sch st a (e # rest) = ?final" using e g by simp
  from heap_frame(1)[of st sch "inputType f0"] g Cons(2)
  have ay: "a < length (shapes y)" "shapes y ! a = shapes st ! a" by auto
  with Cons(2,3) have fy: "fieldsOf (shapes y) (Shape a) = Some fs0" by simp
  have a2: "a < length (shapes ?st2)" using ay(1) by simp
  have f2: "fieldsOf (shapes ?st2) (Shape a) = Some ?fs1" using fieldsOf_putField[OF ay(1) fy] .
  from Cons(1)[OF a2 f2] obtain fs' where fs':
    "fieldsOf (shapes ?final) (Shape a) = Some fs'"
    "fst ` set fs' = fst ` set ?fs1 \<union> fst ` set rest"
    "\<forall>key fld. map_of fs' key = Some fld \<longrightarrow>
            (key \<notin> fst ` set rest \<and> map_of ?fs1 key = Some fld)
          \<or> (\<exists>f m. (key, f) \<in> set rest \<and> getNamedType (inputType f) = NamedType m
                \<and> fld = \<lparr>config = Some \<lparr>nonNullOptional = extensionsNonNullOptional f\<rparr>,
                          type = cacheGet ?final m\<rparr>)"
    by blast
  from getValidationType_result[OF m0 g] have r: "inCache y m0" "cacheGet y m0 = x" by simp_all
  then have "inCache ?st2 m0" "cacheGet ?st2 m0 = x" by (simp_all add: inCache_def cacheGet_def)
  with cacheGet_forEachKey[of ?st2 m0 sch a rest] have xfinal: "cacheGet ?final m0 = x" by simp
  have keys: "fst ` set fs' = fst ` set fs0 \<union> fst ` set (e # rest)"
    using fs'(2) e by (auto simp: dom_update)
  have entries: "(key \<notin> fst ` set (e # rest) \<and> map_of fs0 key = Some fld)
          \<or> (\<exists>f m. (key, f) \<in> set (e # rest) \<and> getNamedType (inputType f) = NamedType m
                \<and> fld = \<lparr>config = Some \<lparr>nonNullOptional = extensionsNonNullOptional f\<rparr>,
                          type = cacheGet ?final m\<rparr>)"
    if mf: "map_of fs' key = Some fld" for key fld
  proof -
    from fs'(3) mf consider
      (old) "key \<notin> fst ` set rest" "map_of ?fs1 key = Some fld"
      | (new) f m where "(key, f) \<in> set rest" "getNamedType (inputType f) = NamedType m"
          "fld = \<lparr>config = Some \<lparr>nonNullOptional = extensionsNonNullOptional f\<rparr>, type = cacheGet ?final m\<rparr>"
      by blast
    then show ?thesis
    proof cases
      case old
      show ?thesis
      proof (cases "key = key0")
        case True
        with old(2) have "fld = ?fld0" by (simp add: map_of_update)
        with xfinal have "fld = \<lparr>config = Some \<lparr>nonNullOptional = extensionsNonNullOptional f0\<rparr>, type = cacheGet ?final m0\<rparr>"
          by simp
        with True e m0 show ?thesis by auto
      next
        case False
        with old e show ?thesis by (auto simp: map_of_update)
      qed
    next
      case new
      then show ?thesis by auto
    qed
  qed
  from fs'(1) keys entries show ?case unfolding final by blast
qed

lemma fieldAt_eq: "fieldsOf h r = Some fs \<Longrightarrow> fieldAt h r key = map_of fs key"
  by (simp add: fieldAt_def)

lemma map_of_Some_iff_key: "(\<exists>v. map_of fs k = Some v) \<longleftrightarrow> k \<in> fst ` set fs"
  by (metis map_of_eq_None_iff not_None_eq)

text \<open>
  What a compilation on a cache miss leaves in the shape of a named input-object type: its
  entries are those of the fields the filter keeps.
\<close>

lemma getValidationType_shape_fields:
  assumes "\<not> inCache st n" and "getFields sch (NamedType n) = Some fs"
  shows "fst (getValidationType sch st (NamedType n)) = Shape (length (shapes st))
     \<and> ((\<exists>fld. fieldAt (shapes (snd (getValidationType sch st (NamedType n)))) (Shape (length (shapes st))) key = Some fld)
          \<longleftrightarrow> (\<exists>f. (key, f) \<in> set fs \<and> extensionsNonNullOptional f = Some True))
     \<and> (\<forall>fld. fieldAt (shapes (snd (getValidationType sch st (NamedType n)))) (Shape (length (shapes st))) key = Some fld
          \<longrightarrow> config fld = Some \<lparr>nonNullOptional = Some True\<rparr>
              \<and> (\<exists>f m. (key, f) \<in> set fs \<and> extensionsNonNullOptional f = Some True
                    \<and> getNamedType (inputType f) = NamedType m
                    \<and> type fld = cacheGet (snd (getValidationType sch st (NamedType n))) m))
     \<and> (fieldsOf (shapes (snd (getValidationType sch st (NamedType n)))) (Shape (length (shapes st))) = None
          \<longleftrightarrow> \<not> (\<exists>k f. (k, f) \<in> set fs \<and> extensionsNonNullOptional f = Some True))"
proof -
  let ?a = "length (shapes st)"
  let ?st2 = "cachePut (snd (newObject st)) n ?a"
  let ?flt = "filter (\<lambda>(key, field). extensionsNonNullOptional field = Some True) fs"
  let ?st' = "snd (getValidationType sch st (NamedType n))"
  have flt: "(k, f) \<in> set ?flt \<longleftrightarrow> (k, f) \<in> set fs \<and> extensionsNonNullOptional f = Some True" for k f
    by auto
  have g: "getValidationType sch st (NamedType n) = mapper sch ?st2 (NamedType n) ?a"
    using assms(1) by (rule getValidationType_miss)
  have 1: "fst (getValidationType sch st (NamedType n)) = Shape ?a"
    by (simp add: g mapper_named_fst)
  have a2: "?a < length (shapes ?st2)" "fieldsOf (shapes ?st2) (Shape ?a) = None"
    by (simp_all add: newObject_def)
  show ?thesis
  proof (cases "?flt = []")
    case True
    then have st': "?st' = ?st2" using assms(2) by (simp add: g mapper.simps)
    from True have none: "\<not> (\<exists>k f. (k, f) \<in> set fs \<and> extensionsNonNullOptional f = Some True)"
      by (auto simp: filter_empty_conv)
    from st' a2(2) have "fieldsOf (shapes ?st') (Shape ?a) = None" by simp
    moreover from this have "fieldAt (shapes ?st') (Shape ?a) key = None" by (simp add: fieldAt_def)
    ultimately show ?thesis using 1 none by simp
  next
    case False
    let ?st3 = "setFields ?st2 ?a []"
    from False have st': "?st' = forEachKey sch ?st3 ?a ?flt"
      using assms(2) by (simp add: g mapper.simps Let_def)
    have a3: "?a < length (shapes ?st3)" "fieldsOf (shapes ?st3) (Shape ?a) = Some []"
      by (simp_all add: shapes_setFields newObject_def)
    from forEachKey_fields[OF a3, of sch ?flt] st' obtain fs' where fs':
      "fieldsOf (shapes ?st') (Shape ?a) = Some fs'"
      "fst ` set fs' = fst ` set ?flt"
      "\<forall>key fld. map_of fs' key = Some fld \<longrightarrow>
          (\<exists>f m. (key, f) \<in> set ?flt \<and> getNamedType (inputType f) = NamedType m
                \<and> fld = \<lparr>config = Some \<lparr>nonNullOptional = extensionsNonNullOptional f\<rparr>,
                          type = cacheGet ?st' m\<rparr>)"
      by auto
    have fa: "fieldAt (shapes ?st') (Shape ?a) key = map_of fs' key" using fs'(1) by (rule fieldAt_eq)
    have 2: "(\<exists>fld. fieldAt (shapes ?st') (Shape ?a) key = Some fld)
          \<longleftrightarrow> (\<exists>f. (key, f) \<in> set fs \<and> extensionsNonNullOptional f = Some True)"
    proof -
      have "(\<exists>fld. map_of fs' key = Some fld) \<longleftrightarrow> key \<in> fst ` set ?flt"
        using fs'(2) map_of_Some_iff_key[of fs' key] by simp
      also have "\<dots> \<longleftrightarrow> (\<exists>f. (key, f) \<in> set ?flt)" by force
      also have "\<dots> \<longleftrightarrow> (\<exists>f. (key, f) \<in> set fs \<and> extensionsNonNullOptional f = Some True)"
        using flt by blast
      finally show ?thesis by (simp add: fa)
    qed
    have 3: "config fld = Some \<lparr>nonNullOptional = Some True\<rparr>
              \<and> (\<exists>f m. (key, f) \<in> set fs \<and> extensionsNonNullOptional f = Some True
                    \<and> getNamedType (inputType f) = NamedType m \<and> type fld = cacheGet ?st' m)"
      if "fieldAt (shapes ?st') (Shape ?a) key = Some fld" for fld
    proof -
      from that fa fs'(3) obtain f m where fm: "(key, f) \<in> set ?flt" "getNamedType (inputType f) = NamedType m"
        "fld = \<lparr>config = Some \<lparr>nonNullOptional = extensionsNonNullOptional f\<rparr>, type = cacheGet ?st' m\<rparr>"
        by metis
      from fm(1) have "(key, f) \<in> set fs" "extensionsNonNullOptional f = Some True" using flt by blast+
      with fm(2,3) show ?thesis by auto
    qed
    from False obtain k f where "(k, f) \<in> set ?flt" by (cases ?flt) auto
    then have some: "\<exists>k f. (k, f) \<in> set fs \<and> extensionsNonNullOptional f = Some True" using flt by blast
    from 1 2 3 some fs'(1) show ?thesis by simp
  qed
qed

text \<open>
  In particular, compiled on a cache miss, the shape of a named input-object type has an
  entry for each declared field that carries a truthy \<^verbatim>\<open>nonNullOptional\<close> flag; the entry
  records that flag and, as its nested shape, the cached shape of the field's named type.
\<close>

lemma getValidationType_keeps_flagged_fields:
  assumes "\<not> inCache st n" and "getFields sch (NamedType n) = Some fs" and "distinct (map fst fs)"
    and "(key, f) \<in> set fs" and "extensionsNonNullOptional f = Some True"
  shows "fst (getValidationType sch st (NamedType n)) = Shape (length (shapes st))
     \<and> (\<exists>fld m. fieldAt (shapes (snd (getValidationType sch st (NamedType n)))) (Shape (length (shapes st))) key
                  = Some fld
           \<and> config fld = Some \<lparr>nonNullOptional = Some True\<rparr>
           \<and> getNamedType (inputType f) = NamedType m
           \<and> type fld = cacheGet (snd (getValidationType sch st (NamedType n))) m)"
proof -
  let ?st' = "snd (getValidationType sch st (NamedType n))"
  let ?a = "length (shapes st)"
  note exact = getValidationType_shape_fields[OF assms(1,2), of key]
  from exact assms(4,5) obtain fld where fld: "fieldAt (shapes ?st') (Shape ?a) key = Some fld" by blast
  with exact obtain f' m where f': "config fld = Some \<lparr>nonNullOptional = Some True\<rparr>"
    "(key, f') \<in> set fs" "getNamedType (inputType f') = NamedType m" "type fld = cacheGet ?st' m"
    by blast
  from assms(3,4) f'(2) have "f' = f" by (metis eq_key_imp_eq_value)
  with fld f' exact show ?thesis by blast
qed

text \<open>
  C1, the code at a schema on which it does not do what the claim says: \<open>Outer\<close> has the
  unflagged field \<open>inner\<close> of type \<open>Inner\<close>, and \<open>Inner\<close> compiles to a non-empty shape (its
  field \<open>x\<close> is flagged), so the claim asks for an entry \<open>inner\<close> in the shape of \<open>Outer\<close>. The
  shape of \<open>Outer\<close> has no entry for \<open>inner\<close> (it has no \<^verbatim>\<open>fields\<close> at all), whether \<open>Inner\<close>
  was compiled before or not. An operation whose argument is an \<open>Outer\<close> gets no argument
  shape and no resolver, so \<^verbatim>\<open>{data: {inner: {x: null}}}\<close> is not validated; an operation
  whose argument is an \<open>Inner\<close> gets both, \<^verbatim>\<open>createArgsValidationType\<close> keeping the argument
  because its nested shape has fields.
\<close>
theorem getValidationType_omits_unflagged_parent:
  "fieldsOf
     (shapes (snd (getValidationType
        [(''Outer'', InputObjectType
           [(''inner'', \<lparr>inputType = NamedType ''Inner'', extensionsNonNullOptional = None\<rparr>)]),
         (''Inner'', InputObjectType
           [(''x'', \<lparr>inputType = NamedType ''String'', extensionsNonNullOptional = Some True\<rparr>)])]
        emptyCompiler (NamedType ''Inner''))))
     (fst (getValidationType
        [(''Outer'', InputObjectType
           [(''inner'', \<lparr>inputType = NamedType ''Inner'', extensionsNonNullOptional = None\<rparr>)]),
         (''Inner'', InputObjectType
           [(''x'', \<lparr>inputType = NamedType ''String'', extensionsNonNullOptional = Some True\<rparr>)])]
        emptyCompiler (NamedType ''Inner'')))
     = Some [(''x'', \<lparr>config = Some \<lparr>nonNullOptional = Some True\<rparr>, type = Shape 1\<rparr>)]
   \<and> fieldAt
     (shapes (snd (getValidationType
        [(''Outer'', InputObjectType
           [(''inner'', \<lparr>inputType = NamedType ''Inner'', extensionsNonNullOptional = None\<rparr>)]),
         (''Inner'', InputObjectType
           [(''x'', \<lparr>inputType = NamedType ''String'', extensionsNonNullOptional = Some True\<rparr>)])]
        emptyCompiler (NamedType ''Outer''))))
     (fst (getValidationType
        [(''Outer'', InputObjectType
           [(''inner'', \<lparr>inputType = NamedType ''Inner'', extensionsNonNullOptional = None\<rparr>)]),
         (''Inner'', InputObjectType
           [(''x'', \<lparr>inputType = NamedType ''String'', extensionsNonNullOptional = Some True\<rparr>)])]
        emptyCompiler (NamedType ''Outer'')))
     ''inner'' = None
   \<and> getValidationType
        [(''Outer'', InputObjectType
           [(''inner'', \<lparr>inputType = NamedType ''Inner'', extensionsNonNullOptional = None\<rparr>)]),
         (''Inner'', InputObjectType
           [(''x'', \<lparr>inputType = NamedType ''String'', extensionsNonNullOptional = Some True\<rparr>)])]
        emptyCompiler (NamedType ''Outer'')
     = (Shape 0, Compiler [ValidationType None] [(''Outer'', 0)])
   \<and> getValidationType
        [(''Outer'', InputObjectType
           [(''inner'', \<lparr>inputType = NamedType ''Inner'', extensionsNonNullOptional = None\<rparr>)]),
         (''Inner'', InputObjectType
           [(''x'', \<lparr>inputType = NamedType ''String'', extensionsNonNullOptional = Some True\<rparr>)])]
        (snd (getValidationType
          [(''Outer'', InputObjectType
             [(''inner'', \<lparr>inputType = NamedType ''Inner'', extensionsNonNullOptional = None\<rparr>)]),
           (''Inner'', InputObjectType
             [(''x'', \<lparr>inputType = NamedType ''String'', extensionsNonNullOptional = Some True\<rparr>)])]
          emptyCompiler (NamedType ''Inner'')))
        (NamedType ''Outer'')
     = (Shape 2,
        Compiler
          [ValidationType (Some [(''x'', \<lparr>config = Some \<lparr>nonNullOptional = Some True\<rparr>, type = Shape 1\<rparr>)]),
           ValidationType None, ValidationType None]
          [(''Inner'', 0), (''String'', 1), (''Outer'', 2)])
   \<and> createArgsValidationType
        [(''Outer'', InputObjectType
           [(''inner'', \<lparr>inputType = NamedType ''Inner'', extensionsNonNullOptional = None\<rparr>)]),
         (''Inner'', InputObjectType
           [(''x'', \<lparr>inputType = NamedType ''String'', extensionsNonNullOptional = Some True\<rparr>)])]
        emptyCompiler (Some [(''data'', NamedType ''Outer'')])
     = (None, Compiler [ValidationType None] [(''Outer'', 0)])
   \<and> fst (onCreateFieldResolver
        [(''Outer'', InputObjectType
           [(''inner'', \<lparr>inputType = NamedType ''Inner'', extensionsNonNullOptional = None\<rparr>)]),
         (''Inner'', InputObjectType
           [(''x'', \<lparr>inputType = NamedType ''String'', extensionsNonNullOptional = Some True\<rparr>)])]
        emptyCompiler (Some [(''data'', NamedType ''Outer'')])) = None
   \<and> fst (createArgsValidationType
        [(''Outer'', InputObjectType
           [(''inner'', \<lparr>inputType = NamedType ''Inner'', extensionsNonNullOptional = None\<rparr>)]),
         (''Inner'', InputObjectType
           [(''x'', \<lparr>inputType = NamedType ''String'', extensionsNonNullOptional = Some True\<rparr>)])]
        emptyCompiler (Some [(''data'', NamedType ''Inner'')])) = Some (Shape 2)
   \<and> fst (onCreateFieldResolver
        [(''Outer'', InputObjectType
           [(''inner'', \<lparr>inputType = NamedType ''Inner'', extensionsNonNullOptional = None\<rparr>)]),
         (''Inner'', InputObjectType
           [(''x'', \<lparr>inputType = NamedType ''String'', extensionsNonNullOptional = Some True\<rparr>)])]
        emptyCompiler (Some [(''data'', NamedType ''Inner'')])) \<noteq> None"
  by (simp add: compile_eval createArgsValidationType_def onCreateFieldResolver_def fieldAt_def
        emptyCompiler_def inCache_def cacheGet_def objectPrototypeKeys_def)

end
